theory Spec2Isabelle
  imports Main "HOL-Library.Finite_Map"
begin

section \<open>Opaque JSON payloads\<close>

text \<open>
  Task \<open>data\<close>, task \<open>result\<close> and knowledge \<open>data\<close> cross the tools as untyped JSON.
  A parameter that is absent (\<open>undefined\<close>) is \<open>None\<close> at type \<open>json option\<close>; JSON
  \<open>null\<close> is the value \<open>JNull\<close>.  Numbers are kept as integers: the tools never compute
  with a payload.
\<close>

datatype json =
    JNull
  | JBool bool
  | JNum int
  | JStr string
  | JArr "json list"
  | JObj "(string \<times> json) list"

text \<open>
  The spread \<open>...(tags?.length ? { tags } : {})\<close> shared by all tools: the \<open>tags\<close> field
  exists only for a non-empty list.
\<close>

definition spreadTags :: "string list option \<Rightarrow> string list option" where
  "spreadTags tags = (case tags of None \<Rightarrow> None | Some [] \<Rightarrow> None | Some (x # xs) \<Rightarrow> Some (x # xs))"

section \<open>Plain objects used as dictionaries\<close>

text \<open>
  The knowledge store, its categories and the \<open>completed\<close> and \<open>failed\<close> maps of a
  checkpoint are plain objects indexed by names the caller chooses.  Such an object is
  modelled by the map of its own properties; \<open>Object.keys\<close> and \<open>JSON.stringify\<close> see
  exactly these.  Reading \<open>obj[name]\<close> follows the prototype chain: a name that is not an
  own property but names a member of \<open>Object.prototype\<close> yields that member, a function or,
  for \<open>__proto__\<close>, the prototype object itself.  Such a value is truthy and has none of
  the fields the tools read (\<open>createdAt\<close>, \<open>data\<close>, \<open>result\<close> are \<open>undefined\<close> on it).
  Every value the tools store is an object, hence truthy.  Assigning an object to
  \<open>obj.__proto__\<close> where that is not an own property replaces the prototype and creates
  no own property; every other assignment creates or overwrites an own property.
  \<open>Object.prototype\<close> is taken as the runtime starts it.
\<close>

definition objectPrototypeNames :: "string list" where
  "objectPrototypeNames =
     [''constructor'', ''__defineGetter__'', ''__defineSetter__'', ''hasOwnProperty'',
      ''__lookupGetter__'', ''__lookupSetter__'', ''isPrototypeOf'', ''propertyIsEnumerable'',
      ''toString'', ''valueOf'', ''__proto__'', ''toLocaleString'']"

datatype 'a property = Own 'a | Inherited | Missing

text \<open>\<open>obj[name]\<close>, given what the own properties hold under \<open>name\<close>.\<close>

definition getProperty :: "'a option \<Rightarrow> string \<Rightarrow> 'a property" where
  "getProperty own name =
     (case own of
        Some v \<Rightarrow> Own v
      | None \<Rightarrow> if name \<in> set objectPrototypeNames then Inherited else Missing)"

definition truthy :: "'a property \<Rightarrow> bool" where
  "truthy p \<longleftrightarrow> p \<noteq> Missing"

text \<open>Whether \<open>obj[name] = value\<close> writes an own property.\<close>

definition assignsOwn :: "'a option \<Rightarrow> string \<Rightarrow> bool" where
  "assignsOwn own name \<longleftrightarrow> own \<noteq> None \<or> name \<noteq> ''__proto__''"

definition setProperty :: "(string \<rightharpoonup> 'a) \<Rightarrow> string \<Rightarrow> 'a \<Rightarrow> (string \<rightharpoonup> 'a)" where
  "setProperty obj name v = (if assignsOwn (obj name) name then obj(name \<mapsto> v) else obj)"

definition fmSetProperty :: "(string, 'a) fmap \<Rightarrow> string \<Rightarrow> 'a \<Rightarrow> (string, 'a) fmap" where
  "fmSetProperty obj name v =
     (if assignsOwn (fmlookup obj name) name then fmupd name v obj else obj)"

section \<open>Task queue (task-queue-tool)\<close>

text \<open>
  The queue document \<open>{tasks: [...]}\<close> is the content of \<open>.task-queue.json\<close>.  Every action
  loads it, mutates the loaded objects in place and saves it; an action that returns before
  \<open>saveQueue\<close> leaves the document as it was.  Each action is a function from the document
  to the new document and the JSON result.  \<open>Date.now()\<close> is the parameter \<open>now\<close> (the reads
  inside one action are taken at one instant), the random id of \<open>add\<close> is the parameter
  \<open>newId\<close>, and the parameters arrive already read by \<open>readStringParam\<close> and
  \<open>readNumberParam\<close> (an optional one as an \<open>option\<close>).
\<close>

datatype Priority = Low | Normal | High

datatype TaskStatus = Pending | Claimed | Done | Failed

record TaskRecord =
  t_id :: string
  t_task :: string
  t_data :: "json option"
  t_priority :: Priority
  t_status :: TaskStatus
  t_retries :: int
  t_maxRetries :: int
  t_createdAt :: int
  t_updatedAt :: int
  t_claimedAt :: "int option"
  t_completedAt :: "int option"
  t_result :: "json option"
  t_error :: "string option"
  t_tags :: "string list option"

record QueueData =
  tasks :: "TaskRecord list"

datatype QueueResult =
    RAdded string string
  | REmpty
  | RClaimed string string "json option" Priority int "string list option"
  | RNotFound string
  | RCompleted string
  | RRetrying string int int
  | RFailed string int string
  | RResetToPending string
  | RCleared nat nat

text \<open>The \<open>status\<close> field of each JSON result.\<close>

fun result_status :: "QueueResult \<Rightarrow> string" where
  "result_status (RAdded i t) = ''added''"
| "result_status REmpty = ''empty''"
| "result_status (RClaimed i t d p r g) = ''claimed''"
| "result_status (RNotFound i) = ''not_found''"
| "result_status (RCompleted i) = ''completed''"
| "result_status (RRetrying i r m) = ''retrying''"
| "result_status (RFailed i r e) = ''failed''"
| "result_status (RResetToPending i) = ''reset_to_pending''"
| "result_status (RCleared r k) = ''cleared''"

text \<open>\<open>case "add"\<close>: priority defaults to normal, maxRetries to 3.\<close>

definition add ::
  "int \<Rightarrow> string \<Rightarrow> string \<Rightarrow> json option \<Rightarrow> Priority option \<Rightarrow> int option \<Rightarrow>
   string list option \<Rightarrow> QueueData \<Rightarrow> QueueData \<times> QueueResult" where
  "add now newId task data priority maxRetries tags queue =
     (let rec = \<lparr> t_id = newId,
                  t_task = task,
                  t_data = data,
                  t_priority = (case priority of None \<Rightarrow> Normal | Some p \<Rightarrow> p),
                  t_status = Pending,
                  t_retries = 0,
                  t_maxRetries = (case maxRetries of None \<Rightarrow> 3 | Some n \<Rightarrow> n),
                  t_createdAt = now,
                  t_updatedAt = now,
                  t_claimedAt = None,
                  t_completedAt = None,
                  t_result = None,
                  t_error = None,
                  t_tags = spreadTags tags \<rparr>
      in (queue\<lparr>tasks := tasks queue @ [rec]\<rparr>, RAdded (t_id rec) (t_task rec)))"

text \<open>
  \<open>case "claim"\<close>.  The comparator is
  \<open>priorityOrder[a.priority] - priorityOrder[b.priority] || a.createdAt - b.createdAt\<close>;
  \<open>x || y\<close> is \<open>y\<close> exactly when \<open>x\<close> is 0.  \<open>Array.prototype.sort\<close> is stable; it is
  modelled by a stable insertion sort over the comparator.  The sorted array holds
  references into \<open>queue.tasks\<close>, so the model sorts the indices of the pending tasks and
  writes the claimed task back at its index.
\<close>

definition priorityOrder :: "Priority \<Rightarrow> int" where
  "priorityOrder p = (case p of High \<Rightarrow> 0 | Normal \<Rightarrow> 1 | Low \<Rightarrow> 2)"

definition compareTasks :: "TaskRecord \<Rightarrow> TaskRecord \<Rightarrow> int" where
  "compareTasks a b =
     (let d = priorityOrder (t_priority a) - priorityOrder (t_priority b)
      in if d \<noteq> 0 then d else t_createdAt a - t_createdAt b)"

fun insertBy :: "('a \<Rightarrow> 'a \<Rightarrow> int) \<Rightarrow> 'a \<Rightarrow> 'a list \<Rightarrow> 'a list" where
  "insertBy cmp x [] = [x]"
| "insertBy cmp x (y # ys) = (if cmp x y \<le> 0 then x # y # ys else y # insertBy cmp x ys)"

fun sortBy :: "('a \<Rightarrow> 'a \<Rightarrow> int) \<Rightarrow> 'a list \<Rightarrow> 'a list" where
  "sortBy cmp [] = []"
| "sortBy cmp (x # xs) = insertBy cmp x (sortBy cmp xs)"

definition pendingSorted :: "TaskRecord list \<Rightarrow> nat list" where
  "pendingSorted ts =
     sortBy (\<lambda>i j. compareTasks (ts ! i) (ts ! j))
       (filter (\<lambda>i. t_status (ts ! i) = Pending) [0..<length ts])"

definition claim :: "int \<Rightarrow> QueueData \<Rightarrow> QueueData \<times> QueueResult" where
  "claim now queue =
     (case pendingSorted (tasks queue) of
        [] \<Rightarrow> (queue, REmpty)
      | i # rest \<Rightarrow>
          (let task = (tasks queue ! i)\<lparr>t_status := Claimed,
                                       t_claimedAt := Some now,
                                       t_updatedAt := now\<rparr>
           in (queue\<lparr>tasks := (tasks queue)[i := task]\<rparr>,
               RClaimed (t_id task) (t_task task) (t_data task) (t_priority task)
                 (t_retries task) (spreadTags (t_tags task)))))"

text \<open>
  \<open>queue.tasks.find((t) => t.id === id)\<close> yields a reference to the first task with
  that id; the model finds its index.
\<close>

fun findIndex :: "('a \<Rightarrow> bool) \<Rightarrow> 'a list \<Rightarrow> nat option" where
  "findIndex P [] = None"
| "findIndex P (x # xs) = (if P x then Some 0 else map_option Suc (findIndex P xs))"

text \<open>\<open>case "complete"\<close>.\<close>

definition complete :: "int \<Rightarrow> string \<Rightarrow> json option \<Rightarrow> QueueData \<Rightarrow> QueueData \<times> QueueResult" where
  "complete now ident res queue =
     (case findIndex (\<lambda>t. t_id t = ident) (tasks queue) of
        None \<Rightarrow> (queue, RNotFound ident)
      | Some i \<Rightarrow>
          (let task = (tasks queue ! i)\<lparr>t_status := Done,
                                       t_completedAt := Some now,
                                       t_updatedAt := now,
                                       t_result := res\<rparr>
           in (queue\<lparr>tasks := (tasks queue)[i := task]\<rparr>, RCompleted ident)))"

text \<open>\<open>case "fail"\<close>: the error text defaults to \<open>"Unknown error"\<close>.\<close>

definition fail :: "int \<Rightarrow> string \<Rightarrow> string option \<Rightarrow> QueueData \<Rightarrow> QueueData \<times> QueueResult" where
  "fail now ident err queue =
     (let error = (case err of None \<Rightarrow> ''Unknown error'' | Some e \<Rightarrow> e)
      in case findIndex (\<lambda>t. t_id t = ident) (tasks queue) of
           None \<Rightarrow> (queue, RNotFound ident)
         | Some i \<Rightarrow>
             (let task = (tasks queue ! i)\<lparr>t_retries := t_retries (tasks queue ! i) + 1,
                                          t_error := Some error,
                                          t_updatedAt := now\<rparr>
              in if t_retries task < t_maxRetries task
                 then (queue\<lparr>tasks := (tasks queue)[i := task\<lparr>t_status := Pending,
                                                               t_claimedAt := None\<rparr>]\<rparr>,
                       RRetrying ident (t_retries task) (t_maxRetries task))
                 else (queue\<lparr>tasks := (tasks queue)[i := task\<lparr>t_status := Failed\<rparr>]\<rparr>,
                       RFailed ident (t_retries task) error)))"

text \<open>\<open>case "retry"\<close>.\<close>

definition retry :: "int \<Rightarrow> string \<Rightarrow> QueueData \<Rightarrow> QueueData \<times> QueueResult" where
  "retry now ident queue =
     (case findIndex (\<lambda>t. t_id t = ident) (tasks queue) of
        None \<Rightarrow> (queue, RNotFound ident)
      | Some i \<Rightarrow>
          (let task = (tasks queue ! i)\<lparr>t_status := Pending,
                                       t_claimedAt := None,
                                       t_error := None,
                                       t_updatedAt := now\<rparr>
           in (queue\<lparr>tasks := (tasks queue)[i := task]\<rparr>, RResetToPending ident)))"

text \<open>\<open>case "clear"\<close>: \<open>olderThanHours\<close> defaults to 24.\<close>

definition clear :: "int \<Rightarrow> int option \<Rightarrow> QueueData \<Rightarrow> QueueData \<times> QueueResult" where
  "clear now olderThanHours queue =
     (let cutoff = now - (case olderThanHours of None \<Rightarrow> 24 | Some h \<Rightarrow> h) * 60 * 60 * 1000;
          kept = filter (\<lambda>t. t_status t = Pending \<or> t_status t = Claimed \<or> t_updatedAt t > cutoff)
                   (tasks queue)
      in (queue\<lparr>tasks := kept\<rparr>, RCleared (length (tasks queue) - length kept) (length kept)))"

text \<open>
  A history of the queue: the mutating actions in the order they were executed, each with
  the clock reading of its call, starting from the empty document that \<open>loadQueue\<close> returns
  when there is no file.
\<close>

datatype QueueAction =
    Add int string string "json option" "Priority option" "int option" "string list option"
  | Claim int
  | Complete int string "json option"
  | Fail int string "string option"
  | Retry int string
  | Clear int "int option"

fun execute_queue :: "QueueAction \<Rightarrow> QueueData \<Rightarrow> QueueData \<times> QueueResult" where
  "execute_queue (Add now newId task data priority maxRetries tags) q =
     add now newId task data priority maxRetries tags q"
| "execute_queue (Claim now) q = claim now q"
| "execute_queue (Complete now ident res) q = complete now ident res q"
| "execute_queue (Fail now ident err) q = fail now ident err q"
| "execute_queue (Retry now ident) q = retry now ident q"
| "execute_queue (Clear now h) q = clear now h q"

fun run_queue :: "QueueAction list \<Rightarrow> QueueData \<Rightarrow> QueueData" where
  "run_queue [] q = q"
| "run_queue (a # as) q = run_queue as (fst (execute_queue a q))"

definition emptyQueue :: QueueData where
  "emptyQueue = \<lparr> tasks = [] \<rparr>"

section \<open>Message board (agent-board-tool)\<close>

text \<open>
  A board is the JSONL file \<open>.agent-boards/<safe name>.jsonl\<close>.  A file is modelled by its
  non-empty lines, each line by what \<open>JSON.parse\<close> makes of it: \<open>Some m\<close> for a message,
  \<open>None\<close> for a line that does not parse.  A missing file reads as the empty board.
  \<open>new Date(since).getTime()\<close> is the parameter \<open>parseDate\<close> (\<open>None\<close> for \<open>NaN\<close>).  The
  result carries the selected messages themselves; their rendering (ISO timestamp, optional
  tags) is omitted.
\<close>

record BoardMessage =
  m_id :: string
  m_board :: string
  m_from :: string
  m_message :: string
  m_timestamp :: int
  m_tags :: "string list option"

type_synonym BoardFiles = "string \<rightharpoonup> BoardMessage option list"

record BoardReadResult =
  b_status :: string
  b_board :: string
  b_count :: nat
  b_messages :: "BoardMessage list"

text \<open>
  The replacement \<open>/[^a-zA-Z0-9_-]/g \<rightarrow> "_"\<close>, used for board files and workflow ids,
  character by character.
\<close>

definition safeChar :: "char \<Rightarrow> bool" where
  "safeChar c \<longleftrightarrow>
     c \<in> set (''abcdefghijklmnopqrstuvwxyz'' @ ''ABCDEFGHIJKLMNOPQRSTUVWXYZ'' @
              ''0123456789'' @ ''_-'')"

definition safe :: "string \<Rightarrow> string" where
  "safe s = map (\<lambda>c. if safeChar c then c else CHR ''_'') s"

definition boardPath :: "string \<Rightarrow> string" where
  "boardPath board = ''.agent-boards/'' @ safe board @ ''.jsonl''"

definition readBoard :: "BoardFiles \<Rightarrow> string \<Rightarrow> BoardMessage list" where
  "readBoard files board =
     (case files (boardPath board) of
        None \<Rightarrow> []
      | Some lines \<Rightarrow> List.map_filter (\<lambda>l. l) lines)"

text \<open>
  \<open>Array.prototype.slice(start)\<close>: a negative start counts from the end, and both ends
  are clamped to the array.
\<close>

definition slice :: "int \<Rightarrow> 'a list \<Rightarrow> 'a list" where
  "slice start xs =
     (let n = int (length xs);
          k = (if start < 0 then max (n + start) 0 else min start n)
      in drop (nat k) xs)"

text \<open>\<open>case "read"\<close>: \<open>if (sinceStr)\<close> holds for a non-empty string.\<close>

definition board_read ::
  "(string \<Rightarrow> int option) \<Rightarrow> BoardFiles \<Rightarrow> string \<Rightarrow> string option \<Rightarrow> int option \<Rightarrow>
   BoardReadResult" where
  "board_read parseDate files board sinceStr limitParam =
     (let limit = (case limitParam of None \<Rightarrow> 50 | Some l \<Rightarrow> l);
          messages = readBoard files board;
          messages1 =
            (case sinceStr of
               None \<Rightarrow> messages
             | Some s \<Rightarrow>
                 if s = [] then messages
                 else if s = ''last_read'' then messages
                 else (case parseDate s of
                         None \<Rightarrow> messages
                       | Some sinceMs \<Rightarrow> filter (\<lambda>m. m_timestamp m > sinceMs) messages));
          messages2 = slice (- limit) messages1
      in \<lparr> b_status = ''ok'', b_board = board, b_count = length messages2,
           b_messages = messages2 \<rparr>)"

section \<open>Knowledge store (knowledge-store-tool)\<close>

text \<open>
  The document \<open>.knowledge-store.json\<close> maps a category to a map from keys to entries;
  both levels are plain objects.  Every action loads the document and, if it changed it,
  saves it.  A category that is not an own property of the store but names a member of
  \<open>Object.prototype\<close> makes \<open>store[category]\<close> that built-in object: the call then reads
  and writes the runtime's object instead of the document.  The model does not follow it
  there; it leaves the document as it is (nothing of the built-in object is serialised) and
  answers \<open>KBuiltinObject\<close>.  \<open>get\<close> renders the two timestamps with
  \<open>new Date(ms).toISOString()\<close>: for a stored clock reading the model returns the
  millisecond value, for the \<open>undefined\<close> that an inherited member has in place of
  \<open>createdAt\<close> the call throws \<open>RangeError\<close>.
\<close>

record KnowledgeEntry =
  k_data :: json
  k_createdAt :: int
  k_updatedAt :: int
  k_tags :: "string list option"

type_synonym StoreData = "string \<rightharpoonup> (string \<rightharpoonup> KnowledgeEntry)"

datatype KnowledgeResult =
    KError string
  | KCreated string string
  | KUpdated string string
  | KNotFound string string
  | KOk string string json int int "string list option"
  | KThrew string
  | KBuiltinObject string

definition knowledge_set ::
  "int \<Rightarrow> string \<Rightarrow> string \<Rightarrow> json option \<Rightarrow> string list option \<Rightarrow> StoreData \<Rightarrow>
   StoreData \<times> KnowledgeResult" where
  "knowledge_set now category key data tags store =
     (case data of
        None \<Rightarrow> (store, KError ''data is required for set'')
      | Some d \<Rightarrow>
          (case getProperty (store category) category of
             Inherited \<Rightarrow> (store, KBuiltinObject category)
           | found \<Rightarrow>
               (let cat = (case found of Own c \<Rightarrow> c | _ \<Rightarrow> Map.empty);
                    existing = getProperty (cat key) key;
                    entry = \<lparr> k_data = d,
                              k_createdAt = (case existing of Own e \<Rightarrow> k_createdAt e | _ \<Rightarrow> now),
                              k_updatedAt = now,
                              k_tags = spreadTags tags \<rparr>
                in (store(category \<mapsto> setProperty cat key entry),
                    (if truthy existing then KUpdated category key
                     else KCreated category key)))))"

definition knowledge_get :: "string \<Rightarrow> string \<Rightarrow> StoreData \<Rightarrow> KnowledgeResult" where
  "knowledge_get category key store =
     (case getProperty (store category) category of
        Missing \<Rightarrow> KNotFound category key
      | Inherited \<Rightarrow> KBuiltinObject category
      | Own cat \<Rightarrow>
          (case getProperty (cat key) key of
             Missing \<Rightarrow> KNotFound category key
           | Inherited \<Rightarrow> KThrew ''RangeError''
           | Own entry \<Rightarrow>
               KOk category key (k_data entry) (k_createdAt entry) (k_updatedAt entry)
                 (spreadTags (k_tags entry))))"

section \<open>Workflow engine (workflow-tool)\<close>

text \<open>
  The engine talks to three collaborators.  The gateway and the sub-agent it runs are an
  oracle: \<open>e_executeStep env k step contextText\<close> is what the \<open>k\<close>-th call of
  \<open>executeStep\<close> settles to, \<open>Inr\<close> a result with its duration or \<open>Inl\<close> the message of
  the error it throws.  The config snapshot and the subagent registry are read once, as
  fields of the environment.  The checkpoint directory is a store from paths to checkpoint
  documents; \<open>mkdir\<close>, \<open>writeFile\<close> and \<open>unlink\<close> act on the store and succeed, and a
  stored document is a well-formed checkpoint.  The \<open>catch\<close> around the pattern
  executors is reached only when a file operation inside an executor throws or the loaded
  document is not a checkpoint (step failures are absorbed by the executors), so it has no
  branch here.  The world also logs every call of \<open>executeStep\<close>, so
  that "no step is spawned" is a statement about the log.  The \<open>completed\<close> and \<open>failed\<close>
  objects are plain objects as described above, their own properties a finite map; the order
  of their keys, and with it the \<open>results\<close> text (and the \<open>merge\<close> parameter that only
  selects its format), is not modelled.  Steps
  that \<open>Promise.allSettled\<close> runs together are called in array order.  \<open>Date.now()\<close> is
  the one reading \<open>e_now\<close>; no property below depends on a timestamp.
\<close>

datatype Pattern = Sequential | Parallel | Dag

record WorkflowStep =
  s_name :: string
  s_task :: string
  s_model :: "string option"
  s_thinking :: "string option"
  s_dependsOn :: "string list option"
  s_timeoutSeconds :: "int option"

datatype CheckpointStatus = InProgress | WfDone | WfFailed

record CompletedStep =
  cs_result :: string
  cs_durationMs :: int

record WorkflowCheckpoint =
  cp_workflowId :: string
  cp_pattern :: Pattern
  cp_steps :: "string list"
  cp_completed :: "(string, CompletedStep) fmap"
  cp_failed :: "(string, string) fmap"
  cp_status :: CheckpointStatus
  cp_startedAt :: int
  cp_updatedAt :: int

record Config =
  cfg_maxSpawnDepth :: "int option"
  cfg_maxChildrenPerAgent :: "int option"

record Env =
  e_now :: int
  e_workspaceRoot :: string
  e_config :: Config
  e_callerDepth :: int
  e_activeChildren :: int
  e_executeStep :: "nat \<Rightarrow> WorkflowStep \<Rightarrow> string \<Rightarrow> string + CompletedStep"

record World =
  w_files :: "string \<rightharpoonup> WorkflowCheckpoint"
  w_stepCalls :: "(WorkflowStep \<times> string) list"

definition loadCheckpoint :: "string \<Rightarrow> World \<Rightarrow> WorkflowCheckpoint option" where
  "loadCheckpoint checkpointPath w = w_files w checkpointPath"

text \<open>\<open>saveCheckpoint\<close> stamps the checkpoint object it is given and writes it.\<close>

definition saveCheckpoint ::
  "Env \<Rightarrow> string \<Rightarrow> WorkflowCheckpoint \<Rightarrow> World \<Rightarrow> World \<times> WorkflowCheckpoint" where
  "saveCheckpoint env checkpointPath checkpoint w =
     (let stamped = checkpoint\<lparr>cp_updatedAt := e_now env\<rparr>
      in (w\<lparr>w_files := (w_files w)(checkpointPath \<mapsto> stamped)\<rparr>, stamped))"

definition unlink :: "string \<Rightarrow> World \<Rightarrow> World" where
  "unlink checkpointPath w = w\<lparr>w_files := (w_files w)(checkpointPath := None)\<rparr>"

definition executeStep ::
  "Env \<Rightarrow> WorkflowStep \<Rightarrow> string \<Rightarrow> World \<Rightarrow> World \<times> (string + CompletedStep)" where
  "executeStep env step contextText w =
     (w\<lparr>w_stepCalls := w_stepCalls w @ [(step, contextText)]\<rparr>,
      e_executeStep env (length (w_stepCalls w)) step contextText)"

definition nl :: string where
  "nl = [CHR 0x0A]"

text \<open>\<open>Array.prototype.join\<close> on an array of strings.\<close>

fun join :: "string \<Rightarrow> string list \<Rightarrow> string" where
  "join sep [] = []"
| "join sep [x] = x"
| "join sep (x # y # ys) = x @ sep @ join sep (y # ys)"

definition stepSection :: "string \<Rightarrow> string \<Rightarrow> string" where
  "stepSection name res = ''### '' @ name @ nl @ res"

subsection \<open>Sequential\<close>

text \<open>\<open>checkpoint.completed[name]\<close> and \<open>checkpoint.failed[name]\<close>, read and tested.\<close>

definition completedOf :: "WorkflowCheckpoint \<Rightarrow> string \<Rightarrow> CompletedStep property" where
  "completedOf checkpoint name = getProperty (fmlookup (cp_completed checkpoint) name) name"

definition failedOf :: "WorkflowCheckpoint \<Rightarrow> string \<Rightarrow> string property" where
  "failedOf checkpoint name = getProperty (fmlookup (cp_failed checkpoint) name) name"

text \<open>
  The context restored from the steps already completed; the \<open>result\<close> of an inherited
  member is \<open>undefined\<close>, which the template renders as that word.
\<close>

definition restoreContext :: "WorkflowStep list \<Rightarrow> WorkflowCheckpoint \<Rightarrow> string list" where
  "restoreContext steps checkpoint =
     List.map_filter
       (\<lambda>s. case completedOf checkpoint (s_name s) of
               Own c \<Rightarrow> Some (stepSection (s_name s) (cs_result c))
             | Inherited \<Rightarrow> Some (stepSection (s_name s) ''undefined'')
             | Missing \<Rightarrow> None)
       steps"

fun sequentialLoop ::
  "Env \<Rightarrow> bool \<Rightarrow> string \<Rightarrow> WorkflowStep list \<Rightarrow> string list \<Rightarrow> WorkflowCheckpoint \<Rightarrow> World \<Rightarrow>
   World \<times> WorkflowCheckpoint" where
  "sequentialLoop env passContext checkpointPath [] contextParts checkpoint w =
     saveCheckpoint env checkpointPath (checkpoint\<lparr>cp_status := WfDone\<rparr>) w"
| "sequentialLoop env passContext checkpointPath (s # rest) contextParts checkpoint w =
     (if truthy (completedOf checkpoint (s_name s))
      then sequentialLoop env passContext checkpointPath rest contextParts checkpoint w
      else
        (let contextText = (if passContext then join (nl @ nl) contextParts else [])
         in case executeStep env s contextText w of
              (w1, Inr r) \<Rightarrow>
                (case saveCheckpoint env checkpointPath
                        (checkpoint\<lparr>cp_completed :=
                           fmSetProperty (cp_completed checkpoint) (s_name s) r\<rparr>) w1 of
                   (w2, checkpoint2) \<Rightarrow>
                     sequentialLoop env passContext checkpointPath rest
                       (contextParts @ [stepSection (s_name s) (cs_result r)]) checkpoint2 w2)
            | (w1, Inl msg) \<Rightarrow>
                saveCheckpoint env checkpointPath
                  (checkpoint\<lparr>cp_failed := fmSetProperty (cp_failed checkpoint) (s_name s) msg,
                              cp_status := WfFailed\<rparr>) w1))"

definition executeSequential ::
  "Env \<Rightarrow> WorkflowStep list \<Rightarrow> bool \<Rightarrow> WorkflowCheckpoint \<Rightarrow> string \<Rightarrow> World \<Rightarrow>
   World \<times> WorkflowCheckpoint" where
  "executeSequential env steps passContext checkpoint checkpointPath w =
     sequentialLoop env passContext checkpointPath steps (restoreContext steps checkpoint)
       checkpoint w"

subsection \<open>Parallel\<close>

fun settleAll ::
  "Env \<Rightarrow> (WorkflowStep \<times> string) list \<Rightarrow> World \<Rightarrow> World \<times> (string + CompletedStep) list" where
  "settleAll env [] w = (w, [])"
| "settleAll env ((s, contextText) # rest) w =
     (case executeStep env s contextText w of
        (w1, r) \<Rightarrow> (case settleAll env rest w1 of (w2, rs) \<Rightarrow> (w2, r # rs)))"

fun recordOutcomes ::
  "(string \<times> (string + CompletedStep)) list \<Rightarrow> WorkflowCheckpoint \<Rightarrow> WorkflowCheckpoint" where
  "recordOutcomes [] checkpoint = checkpoint"
| "recordOutcomes ((stepName, Inr r) # rest) checkpoint =
     recordOutcomes rest
       (checkpoint\<lparr>cp_completed := fmSetProperty (cp_completed checkpoint) stepName r\<rparr>)"
| "recordOutcomes ((stepName, Inl reason) # rest) checkpoint =
     recordOutcomes rest
       (checkpoint\<lparr>cp_failed := fmSetProperty (cp_failed checkpoint) stepName reason\<rparr>)"

definition executeParallel ::
  "Env \<Rightarrow> WorkflowStep list \<Rightarrow> WorkflowCheckpoint \<Rightarrow> string \<Rightarrow> World \<Rightarrow>
   World \<times> WorkflowCheckpoint" where
  "executeParallel env steps checkpoint checkpointPath w =
     (let pending = filter (\<lambda>s. \<not> truthy (completedOf checkpoint (s_name s))) steps
      in case settleAll env (map (\<lambda>s. (s, [])) pending) w of
           (w1, results) \<Rightarrow>
             (let checkpoint1 = recordOutcomes (zip (map s_name pending) results) checkpoint
              in saveCheckpoint env checkpointPath
                   (checkpoint1\<lparr>cp_status :=
                      (if card (fmdom' (cp_failed checkpoint1)) > 0 then WfFailed else WfDone)\<rparr>)
                   w1))"

subsection \<open>DAG\<close>

definition dependencies :: "WorkflowStep \<Rightarrow> string list" where
  "dependencies s = (case s_dependsOn s of None \<Rightarrow> [] | Some ds \<Rightarrow> ds)"

definition isReady :: "WorkflowCheckpoint \<Rightarrow> WorkflowStep \<Rightarrow> bool" where
  "isReady checkpoint s =
     (if truthy (completedOf checkpoint (s_name s)) \<or> truthy (failedOf checkpoint (s_name s))
      then False
      else list_all (\<lambda>d. truthy (completedOf checkpoint d)) (dependencies s))"

definition dependencyContext :: "bool \<Rightarrow> WorkflowCheckpoint \<Rightarrow> WorkflowStep \<Rightarrow> string" where
  "dependencyContext passContext checkpoint s =
     (if passContext
      then join (nl @ nl)
             (map (\<lambda>d. stepSection d
                     (case completedOf checkpoint d of
                        Own c \<Rightarrow> cs_result c
                      | Inherited \<Rightarrow> []
                      | Missing \<Rightarrow> []))
                (dependencies s))
      else [])"

text \<open>
  The loop \<open>for (let iter = 0; iter < maxIterations; iter++)\<close>.  It returns, with the world
  and the checkpoint, the value of \<open>iter\<close> at its exit: the number of scheduling rounds run.
\<close>

function dagLoop ::
  "Env \<Rightarrow> bool \<Rightarrow> string \<Rightarrow> WorkflowStep list \<Rightarrow> nat \<Rightarrow> nat \<Rightarrow> WorkflowCheckpoint \<Rightarrow> World \<Rightarrow>
   World \<times> WorkflowCheckpoint \<times> nat" where
  "dagLoop env passContext checkpointPath steps maxIterations iter checkpoint w =
     (if iter < maxIterations
      then
        (let ready = filter (isReady checkpoint) steps
         in if ready = [] then (w, checkpoint, iter)
            else
              (case settleAll env
                      (map (\<lambda>s. (s, dependencyContext passContext checkpoint s)) ready) w of
                 (w1, results) \<Rightarrow>
                   (case saveCheckpoint env checkpointPath
                           (recordOutcomes (zip (map s_name ready) results) checkpoint) w1 of
                      (w2, checkpoint2) \<Rightarrow>
                        dagLoop env passContext checkpointPath steps maxIterations (Suc iter)
                          checkpoint2 w2)))
      else (w, checkpoint, iter))"
  by pat_completeness auto
termination
  by (relation "measure (\<lambda>(env, passContext, checkpointPath, steps, maxIterations, iter, checkpoint, w).
                  maxIterations - iter)") auto

text \<open>
  \<open>executeDag\<close> returns the saved checkpoint; the model hands the number of rounds through
  as a third component, which \<open>runPattern\<close> drops.
\<close>

definition executeDag ::
  "Env \<Rightarrow> WorkflowStep list \<Rightarrow> bool \<Rightarrow> WorkflowCheckpoint \<Rightarrow> string \<Rightarrow> World \<Rightarrow>
   World \<times> WorkflowCheckpoint \<times> nat" where
  "executeDag env steps passContext checkpoint checkpointPath w =
     (case dagLoop env passContext checkpointPath steps (length steps) 0 checkpoint w of
        (w1, checkpoint1, rounds) \<Rightarrow>
          (let allProcessed =
                 (card (fmdom' (cp_completed checkpoint1)) + card (fmdom' (cp_failed checkpoint1))
                    = length steps)
           in case saveCheckpoint env checkpointPath
                     (checkpoint1\<lparr>cp_status :=
                        (if allProcessed
                         then (if card (fmdom' (cp_failed checkpoint1)) > 0 then WfFailed else WfDone)
                         else WfFailed)\<rparr>) w1 of
                (w2, checkpoint2) \<Rightarrow> (w2, checkpoint2, rounds)))"

subsection \<open>The tool: validation, admission, checkpoint, dispatch, result\<close>

text \<open>
  Every early return of \<open>execute\<close> is an error value.  The first three have result
  status \<open>"error"\<close>, the last two \<open>"forbidden"\<close>.
\<close>

datatype WorkflowError =
    NoSteps
  | DuplicateStep string
  | UnknownDependency string string
  | DepthExceeded int int
  | TooManyParallel nat int

fun error_status :: "WorkflowError \<Rightarrow> string" where
  "error_status NoSteps = ''error''"
| "error_status (DuplicateStep n) = ''error''"
| "error_status (UnknownDependency s d) = ''error''"
| "error_status (DepthExceeded d m) = ''forbidden''"
| "error_status (TooManyParallel n m) = ''forbidden''"

fun duplicateName :: "string set \<Rightarrow> WorkflowStep list \<Rightarrow> string option" where
  "duplicateName names [] = None"
| "duplicateName names (s # rest) =
     (if s_name s \<in> names then Some (s_name s)
      else duplicateName (insert (s_name s) names) rest)"

fun unknownDependency :: "string set \<Rightarrow> WorkflowStep list \<Rightarrow> (string \<times> string) option" where
  "unknownDependency names [] = None"
| "unknownDependency names (s # rest) =
     (case find (\<lambda>dep. dep \<notin> names) (dependencies s) of
        Some dep \<Rightarrow> Some (s_name s, dep)
      | None \<Rightarrow> unknownDependency names rest)"

definition validate :: "Pattern \<Rightarrow> WorkflowStep list \<Rightarrow> WorkflowError option" where
  "validate pat steps =
     (if steps = [] then Some NoSteps
      else case duplicateName {} steps of
             Some n \<Rightarrow> Some (DuplicateStep n)
           | None \<Rightarrow>
               if pat = Dag
               then (case unknownDependency (set (map s_name steps)) steps of
                       Some (s, dep) \<Rightarrow> Some (UnknownDependency s dep)
                     | None \<Rightarrow> None)
               else None)"

text \<open>The depth and fan-out checks; the defaults are 1 and 5.\<close>

definition admission :: "Env \<Rightarrow> Pattern \<Rightarrow> WorkflowStep list \<Rightarrow> WorkflowError option" where
  "admission env pat steps =
     (let callerDepth = e_callerDepth env;
          maxSpawnDepth = (case cfg_maxSpawnDepth (e_config env) of None \<Rightarrow> 1 | Some d \<Rightarrow> d)
      in if callerDepth \<ge> maxSpawnDepth then Some (DepthExceeded callerDepth maxSpawnDepth)
         else
           (let maxChildren =
                  (case cfg_maxChildrenPerAgent (e_config env) of None \<Rightarrow> 5 | Some c \<Rightarrow> c);
                activeChildren = e_activeChildren env
            in if activeChildren + int (length steps) > maxChildren + activeChildren \<and>
                  pat = Parallel \<and> int (length steps) > maxChildren
               then Some (TooManyParallel (length steps) maxChildren)
               else None))"

text \<open>The default label is \<open>`workflow-${Date.now()}`\<close>.\<close>

function showNat :: "nat \<Rightarrow> string" where
  "showNat n =
     (if n < 10 then [char_of (48 + n)]
      else showNat (n div 10) @ [char_of (48 + n mod 10)])"
  by pat_completeness auto
termination
  by (relation "measure (\<lambda>n. n)") auto

definition showInt :: "int \<Rightarrow> string" where
  "showInt i = (if i < 0 then CHR ''-'' # showNat (nat (- i)) else showNat (nat i))"

definition workflowIdOf :: "Env \<Rightarrow> string option \<Rightarrow> string" where
  "workflowIdOf env label =
     safe (case label of None \<Rightarrow> ''workflow-'' @ showInt (e_now env) | Some l \<Rightarrow> l)"

definition checkpointPathOf :: "Env \<Rightarrow> string \<Rightarrow> string" where
  "checkpointPathOf env workflowId =
     e_workspaceRoot env @ ''/checkpoints/workflow-'' @ workflowId @ ''.json''"

text \<open>
  Load or create the checkpoint:
  \<open>existing && existing.steps.join(",") === steps.map((s) => s.name).join(",")\<close>.
\<close>

definition initCheckpoint ::
  "Env \<Rightarrow> bool \<Rightarrow> string \<Rightarrow> Pattern \<Rightarrow> string \<Rightarrow> WorkflowStep list \<Rightarrow> World \<Rightarrow>
   WorkflowCheckpoint" where
  "initCheckpoint env resume workflowId pat checkpointPath steps w =
     (let existing = (if resume then loadCheckpoint checkpointPath w else None);
          fresh = \<lparr> cp_workflowId = workflowId,
                    cp_pattern = pat,
                    cp_steps = map s_name steps,
                    cp_completed = fmempty,
                    cp_failed = fmempty,
                    cp_status = InProgress,
                    cp_startedAt = e_now env,
                    cp_updatedAt = e_now env \<rparr>
      in case existing of
           None \<Rightarrow> fresh
         | Some e \<Rightarrow>
             if join '','' (cp_steps e) = join '','' (map s_name steps)
             then e\<lparr>cp_status := InProgress\<rparr>
             else fresh)"

definition runPattern ::
  "Env \<Rightarrow> Pattern \<Rightarrow> WorkflowStep list \<Rightarrow> bool \<Rightarrow> WorkflowCheckpoint \<Rightarrow> string \<Rightarrow> World \<Rightarrow>
   World \<times> WorkflowCheckpoint" where
  "runPattern env pat steps passContext checkpoint checkpointPath w =
     (case pat of
        Sequential \<Rightarrow> executeSequential env steps passContext checkpoint checkpointPath w
      | Parallel \<Rightarrow> executeParallel env steps checkpoint checkpointPath w
      | Dag \<Rightarrow>
          (case executeDag env steps passContext checkpoint checkpointPath w of
             (w1, checkpoint1, rounds) \<Rightarrow> (w1, checkpoint1)))"

record WorkflowSummary =
  r_status :: CheckpointStatus
  r_pattern :: Pattern
  r_stepsCompleted :: nat
  r_stepsFailed :: nat
  r_totalSteps :: nat
  r_totalDurationMs :: int
  r_failures :: "(string, string) fmap option"
  r_checkpoint :: "string option"

datatype WorkflowResult =
    Rejected WorkflowError
  | Summary WorkflowSummary

definition status_text :: "CheckpointStatus \<Rightarrow> string" where
  "status_text st = (case st of InProgress \<Rightarrow> ''in_progress'' | WfDone \<Rightarrow> ''done'' | WfFailed \<Rightarrow> ''failed'')"

fun workflow_status :: "WorkflowResult \<Rightarrow> string" where
  "workflow_status (Rejected e) = error_status e"
| "workflow_status (Summary r) = status_text (r_status r)"

definition totalDuration :: "(string, CompletedStep) fmap \<Rightarrow> int" where
  "totalDuration m =
     (\<Sum>k \<in> fmdom' m. case fmlookup m k of None \<Rightarrow> 0 | Some c \<Rightarrow> cs_durationMs c)"

text \<open>Cleanup on success and the returned summary (the \<open>results\<close> text apart).\<close>

definition finish ::
  "Pattern \<Rightarrow> WorkflowStep list \<Rightarrow> string \<Rightarrow> World \<times> WorkflowCheckpoint \<Rightarrow> World \<times> WorkflowResult" where
  "finish pat steps checkpointPath outcome =
     (case outcome of
        (w, checkpoint) \<Rightarrow>
          ((if cp_status checkpoint = WfDone then unlink checkpointPath w else w),
           Summary
             \<lparr> r_status = cp_status checkpoint,
               r_pattern = pat,
               r_stepsCompleted = card (fmdom' (cp_completed checkpoint)),
               r_stepsFailed = card (fmdom' (cp_failed checkpoint)),
               r_totalSteps = length steps,
               r_totalDurationMs = totalDuration (cp_completed checkpoint),
               r_failures =
                 (if card (fmdom' (cp_failed checkpoint)) > 0 then Some (cp_failed checkpoint)
                  else None),
               r_checkpoint =
                 (if cp_status checkpoint \<noteq> WfDone then Some checkpointPath else None) \<rparr>))"

text \<open>
  The run of an admitted request up to the end of its pattern executor: resolve the
  checkpoint path, load or create the checkpoint, save it, dispatch on the pattern.
\<close>

definition runAdmitted ::
  "Env \<Rightarrow> Pattern \<Rightarrow> WorkflowStep list \<Rightarrow> bool \<Rightarrow> string option \<Rightarrow> bool \<Rightarrow> World \<Rightarrow>
   World \<times> WorkflowCheckpoint" where
  "runAdmitted env pat steps passContext label resume w =
     (let workflowId = workflowIdOf env label;
          checkpointPath = checkpointPathOf env workflowId
      in case saveCheckpoint env checkpointPath
                (initCheckpoint env resume workflowId pat checkpointPath steps w) w of
           (w1, checkpoint) \<Rightarrow> runPattern env pat steps passContext checkpoint checkpointPath w1)"

definition execute ::
  "Env \<Rightarrow> Pattern \<Rightarrow> WorkflowStep list \<Rightarrow> bool \<Rightarrow> string option \<Rightarrow> bool \<Rightarrow> World \<Rightarrow>
   World \<times> WorkflowResult" where
  "execute env pat steps passContext label resume w =
     (case validate pat steps of
        Some e \<Rightarrow> (w, Rejected e)
      | None \<Rightarrow>
          (case admission env pat steps of
             Some e \<Rightarrow> (w, Rejected e)
           | None \<Rightarrow>
               finish pat steps (checkpointPathOf env (workflowIdOf env label))
                 (runAdmitted env pat steps passContext label resume w)))"

text \<open>The queue of the priority scenario: tasks "low", "high", "normal" added in this order.\<close>

definition demoQueue :: QueueData where
  "demoQueue =
     fst (add 3 ''c3'' ''normal'' None (Some Normal) None None
       (fst (add 2 ''b2'' ''high'' None (Some High) None None
         (fst (add 1 ''a1'' ''low'' None (Some Low) None None emptyQueue)))))"

text \<open>
  Two measures of a history: how many \<open>fail\<close> calls it makes for an id, and whether an
  action is \<open>clear\<close> (the one action that removes tasks).
\<close>

fun failsOf :: "string \<Rightarrow> QueueAction list \<Rightarrow> nat" where
  "failsOf ident [] = 0"
| "failsOf ident (Fail now i e # rest) = (if i = ident then 1 else 0) + failsOf ident rest"
| "failsOf ident (a # rest) = failsOf ident rest"

fun isClear :: "QueueAction \<Rightarrow> bool" where
  "isClear (Clear now h) = True"
| "isClear a = False"

text \<open>The per-task invariants of the data model.\<close>

definition taskInv :: "TaskRecord \<Rightarrow> bool" where
  "taskInv t \<longleftrightarrow>
     (t_status t = Done \<longrightarrow> t_completedAt t \<noteq> None) \<and>
     (t_status t = Failed \<longrightarrow> t_maxRetries t \<le> t_retries t) \<and>
     (t_status t = Claimed \<longrightarrow> t_claimedAt t \<noteq> None)"

text \<open>The history of the "complete a task" test: add, claim, complete.\<close>

definition doneHistory :: "QueueAction list" where
  "doneHistory = [Add 1 ''a1'' ''Do thing'' None None None None, Claim 2, Complete 3 ''a1'' None]"

text \<open>The history of the "retry resets a failed task" test up to the failure.\<close>

definition failedHistory :: "QueueAction list" where
  "failedHistory =
     [Add 1 ''r1'' ''retry me'' None None (Some 0) None, Claim 2, Fail 3 ''r1'' (Some ''oops'')]"

text \<open>
  A board holding 51 messages, one more than the default limit of \<open>read\<close>, and a date
  parser that is never consulted.
\<close>

definition demoMessage :: BoardMessage where
  "demoMessage = \<lparr> m_id = ''1-abcdef'', m_board = ''plan'', m_from = ''agent-a'',
                    m_message = ''hello'', m_timestamp = 1, m_tags = None \<rparr>"

definition noDate :: "string \<Rightarrow> int option" where
  "noDate s = None"

definition fullBoard :: BoardFiles where
  "fullBoard = [boardPath ''plan'' \<mapsto> replicate 51 (Some demoMessage)]"

text \<open>The empty store, and a store with one tagged entry.\<close>

definition emptyStore :: StoreData where
  "emptyStore = Map.empty"

definition taggedStore :: StoreData where
  "taggedStore =
     [''contacts'' \<mapsto> [''sean'' \<mapsto> \<lparr> k_data = JStr ''Sean'', k_createdAt = 10,
                                       k_updatedAt = 10, k_tags = Some [''client''] \<rparr>]]"

text \<open>
  Environments and requests of the scenarios: a gateway on which every step answers
  \<open>"<name>-ok"\<close>, one on which step \<open>A\<close> fails, one on which every step fails; a two-step
  sequence, the DAG \<open>A\<close>, \<open>B\<close> after \<open>A\<close>, \<open>C\<close> after \<open>A\<close>, and six independent steps.
\<close>

definition mkStep :: "string \<Rightarrow> string list option \<Rightarrow> WorkflowStep" where
  "mkStep name deps = \<lparr> s_name = name, s_task = ''do '' @ name, s_model = None, s_thinking = None,
                         s_dependsOn = deps, s_timeoutSeconds = None \<rparr>"

definition okEnv :: Env where
  "okEnv = \<lparr> e_now = 1000, e_workspaceRoot = ''/ws'',
             e_config = \<lparr> cfg_maxSpawnDepth = None, cfg_maxChildrenPerAgent = None \<rparr>,
             e_callerDepth = 0, e_activeChildren = 0,
             e_executeStep = (\<lambda>k s ctx. Inr \<lparr> cs_result = s_name s @ ''-ok'', cs_durationMs = 5 \<rparr>) \<rparr>"

definition failAEnv :: Env where
  "failAEnv = okEnv\<lparr> e_executeStep :=
      (\<lambda>k s ctx. if s_name s = ''A'' then Inl ''boom''
                 else Inr \<lparr> cs_result = s_name s @ ''-ok'', cs_durationMs = 5 \<rparr>) \<rparr>"

definition emptyWorld :: World where
  "emptyWorld = \<lparr> w_files = Map.empty, w_stepCalls = [] \<rparr>"

definition dagSteps :: "WorkflowStep list" where
  "dagSteps = [mkStep ''A'' None, mkStep ''B'' (Some [''A'']), mkStep ''C'' (Some [''A''])]"

definition seqSteps :: "WorkflowStep list" where
  "seqSteps = [mkStep ''A'' None, mkStep ''B'' None]"


definition parSteps :: "WorkflowStep list" where
  "parSteps = map (\<lambda>n. mkStep n None) [''s1'', ''s2'', ''s3'', ''s4'', ''s5'', ''s6'']"

definition failAllEnv :: Env where
  "failAllEnv = okEnv\<lparr> e_executeStep := (\<lambda>k s ctx. Inl ''boom'') \<rparr>"

text \<open>
  A one-step workflow whose step is named \<open>a,b\<close>, the world its failed run leaves behind, and a
  two-step workflow with the steps \<open>a\<close> and \<open>b\<close>.
\<close>

definition commaStep :: "WorkflowStep list" where
  "commaStep = [mkStep ''a,b'' None]"

definition abSteps :: "WorkflowStep list" where
  "abSteps = [mkStep ''a'' None, mkStep ''b'' None]"

definition afterCommaRun :: World where
  "afterCommaRun = fst (execute failAllEnv Sequential commaStep False (Some ''demo'') False emptyWorld)"

text \<open>
  Two DAG requests under one label.  The first has the steps \<open>a,b\<close> and \<open>c\<close>, where \<open>c\<close>
  depends on itself; the second, sent with \<open>resume\<close> to the world the first run leaves
  behind, has the steps \<open>a\<close> and \<open>b,c\<close>, where \<open>b,c\<close> depends on itself.
\<close>

definition stuckSteps :: "WorkflowStep list" where
  "stuckSteps = [mkStep ''a,b'' None, mkStep ''c'' (Some [''c''])]"

definition afterStuckRun :: World where
  "afterStuckRun = fst (execute okEnv Dag stuckSteps False (Some ''demo'') False emptyWorld)"

definition resumedSteps :: "WorkflowStep list" where
  "resumedSteps = [mkStep ''a'' None, mkStep ''b,c'' (Some [''b,c''])]"

text \<open>The names that a checkpoint counts as settled, one way or the other.\<close>

definition processed :: "WorkflowCheckpoint \<Rightarrow> string set" where
  "processed cp = {name. truthy (completedOf cp name) \<or> truthy (failedOf cp name)}"

section \<open>Properties\<close>

subsection \<open>Task queue: claim ordering\<close>

lemma set_insertBy: "set (insertBy cmp x ys) = insert x (set ys)"
  by (induction ys) auto

lemma set_sortBy: "set (sortBy cmp xs) = set xs"
  by (induction xs) (auto simp: set_insertBy)

lemma insertBy_not_Nil: "insertBy cmp x ys \<noteq> []"
  by (cases ys) auto

lemma hd_insertBy:
  "hd (insertBy cmp x ys) = (if ys = [] \<or> cmp x (hd ys) \<le> 0 then x else hd ys)"
  by (cases ys) auto

lemma hd_sortBy_least:
  assumes total: "\<And>a b. cmp a b \<le> 0 \<or> cmp b a \<le> 0"
    and trans: "\<And>a b c. cmp a b \<le> 0 \<Longrightarrow> cmp b c \<le> 0 \<Longrightarrow> cmp a c \<le> 0"
  shows "xs \<noteq> [] \<Longrightarrow> \<forall>y \<in> set xs. cmp (hd (sortBy cmp xs)) y \<le> 0"
proof (induction xs)
  case Nil
  then show ?case by simp
next
  case (Cons x xs)
  have refl: "cmp x x \<le> 0" using total [of x x] by simp
  show ?case
  proof (cases "xs = []")
    case True
    then show ?thesis using refl by simp
  next
    case False
    let ?h = "hd (sortBy cmp xs)"
    have ih: "\<forall>y \<in> set xs. cmp ?h y \<le> 0" using Cons.IH False by simp
    have ne: "sortBy cmp xs \<noteq> []" using False set_sortBy [of cmp xs] by (metis set_empty)
    show ?thesis
    proof (cases "cmp x ?h \<le> 0")
      case True
      then have "hd (sortBy cmp (x # xs)) = x" by (simp add: hd_insertBy)
      moreover have "\<forall>y \<in> set xs. cmp x y \<le> 0"
      proof
        fix y assume "y \<in> set xs"
        then have "cmp ?h y \<le> 0" using ih by blast
        then show "cmp x y \<le> 0" using trans [OF True] by blast
      qed
      ultimately show ?thesis using refl by simp
    next
      case False
      then have h: "hd (sortBy cmp (x # xs)) = ?h" using ne by (simp add: hd_insertBy)
      have "cmp ?h x \<le> 0" using total [of x ?h] False by simp
      then show ?thesis using h ih by simp
    qed
  qed
qed

lemma priorityOrder_cases: "priorityOrder p \<in> {0, 1, 2}"
  by (cases p) (simp_all add: priorityOrder_def)

lemma compareTasks_le:
  "compareTasks a b \<le> 0 \<longleftrightarrow>
     priorityOrder (t_priority a) < priorityOrder (t_priority b) \<or>
     (priorityOrder (t_priority a) = priorityOrder (t_priority b) \<and> t_createdAt a \<le> t_createdAt b)"
  by (auto simp: compareTasks_def Let_def)

lemma pendingSorted_set:
  "set (pendingSorted ts) = {i. i < length ts \<and> t_status (ts ! i) = Pending}"
  by (auto simp: pendingSorted_def set_sortBy)

lemma pendingSorted_hd_least:
  assumes "pendingSorted ts = i # rest"
  shows "\<forall>j \<in> set (pendingSorted ts). compareTasks (ts ! i) (ts ! j) \<le> 0"
proof -
  let ?cmp = "\<lambda>i j. compareTasks (ts ! i) (ts ! j)"
  let ?xs = "filter (\<lambda>i. t_status (ts ! i) = Pending) [0..<length ts]"
  have ne: "?xs \<noteq> []" using assms by (auto simp: pendingSorted_def)
  have "\<forall>y \<in> set ?xs. ?cmp (hd (sortBy ?cmp ?xs)) y \<le> 0"
  proof (rule hd_sortBy_least [where cmp = ?cmp, OF _ _ ne])
    fix a b show "?cmp a b \<le> 0 \<or> ?cmp b a \<le> 0"
      unfolding compareTasks_le by linarith
  next
    fix a b c assume "?cmp a b \<le> 0" "?cmp b c \<le> 0"
    then show "?cmp a c \<le> 0"
      unfolding compareTasks_le by linarith
  qed
  moreover have "hd (sortBy ?cmp ?xs) = i" using assms by (simp add: pendingSorted_def)
  ultimately show ?thesis by (simp add: pendingSorted_def set_sortBy)
qed


lemma claim_Nil: "pendingSorted (tasks queue) = [] \<Longrightarrow> claim now queue = (queue, REmpty)"
  by (simp add: claim_def)

lemma claim_Cons:
  "pendingSorted (tasks queue) = i # rest \<Longrightarrow>
   claim now queue =
     (queue\<lparr>tasks := (tasks queue)[i := (tasks queue ! i)\<lparr>t_status := Claimed,
                                                        t_claimedAt := Some now,
                                                        t_updatedAt := now\<rparr>]\<rparr>,
      RClaimed (t_id (tasks queue ! i)) (t_task (tasks queue ! i)) (t_data (tasks queue ! i))
        (t_priority (tasks queue ! i)) (t_retries (tasks queue ! i))
        (spreadTags (t_tags (tasks queue ! i))))"
  by (simp add: claim_def Let_def)

lemma pendingSorted_Nil_iff:
  "pendingSorted ts = [] \<longleftrightarrow> \<not> (\<exists>t \<in> set ts. t_status t = Pending)"
proof -
  have "pendingSorted ts = [] \<longleftrightarrow> set (pendingSorted ts) = {}" by simp
  also have "\<dots> \<longleftrightarrow> \<not> (\<exists>i < length ts. t_status (ts ! i) = Pending)"
    unfolding pendingSorted_set by auto
  also have "\<dots> \<longleftrightarrow> \<not> (\<exists>t \<in> set ts. t_status t = Pending)"
    by (metis in_set_conv_nth)
  finally show ?thesis .
qed

lemma demoQueue_tasks:
  "tasks demoQueue =
     [\<lparr>t_id = ''a1'', t_task = ''low'', t_data = None, t_priority = Low, t_status = Pending,
       t_retries = 0, t_maxRetries = 3, t_createdAt = 1, t_updatedAt = 1, t_claimedAt = None,
       t_completedAt = None, t_result = None, t_error = None, t_tags = None\<rparr>,
      \<lparr>t_id = ''b2'', t_task = ''high'', t_data = None, t_priority = High, t_status = Pending,
       t_retries = 0, t_maxRetries = 3, t_createdAt = 2, t_updatedAt = 2, t_claimedAt = None,
       t_completedAt = None, t_result = None, t_error = None, t_tags = None\<rparr>,
      \<lparr>t_id = ''c3'', t_task = ''normal'', t_data = None, t_priority = Normal, t_status = Pending,
       t_retries = 0, t_maxRetries = 3, t_createdAt = 3, t_updatedAt = 3, t_claimedAt = None,
       t_completedAt = None, t_result = None, t_error = None, t_tags = None\<rparr>]"
  by (simp add: demoQueue_def add_def emptyQueue_def spreadTags_def)

lemma demoQueue_pendingSorted: "pendingSorted (tasks demoQueue) = [1, 2, 0]"
  by (simp add: demoQueue_tasks pendingSorted_def compareTasks_def priorityOrder_def upt_rec)

text \<open>
  Claim C6.  When some task is pending, \<open>claim\<close> picks a pending task that is minimal for
  the order "priority rank (high 0, normal 1, low 2), then ascending createdAt", overwrites
  it in place with status claimed, \<open>claimedAt\<close> and \<open>updatedAt\<close> set to the clock, and
  returns it with result status \<open>"claimed"\<close>.  When no task is pending the document is
  unchanged and the result is \<open>{status: "empty"}\<close>, not an error.
\<close>

theorem claim_ordering:
  "((\<exists>t \<in> set (tasks queue). t_status t = Pending) \<longrightarrow>
      (\<exists>i < length (tasks queue).
         t_status (tasks queue ! i) = Pending \<and>
         (\<forall>j < length (tasks queue).
            t_status (tasks queue ! j) = Pending \<longrightarrow>
              priorityOrder (t_priority (tasks queue ! i)) < priorityOrder (t_priority (tasks queue ! j)) \<or>
              (priorityOrder (t_priority (tasks queue ! i)) = priorityOrder (t_priority (tasks queue ! j)) \<and>
               t_createdAt (tasks queue ! i) \<le> t_createdAt (tasks queue ! j))) \<and>
         fst (claim now queue) =
           queue\<lparr>tasks := (tasks queue)[i := (tasks queue ! i)\<lparr>t_status := Claimed,
                                                              t_claimedAt := Some now,
                                                              t_updatedAt := now\<rparr>]\<rparr> \<and>
         snd (claim now queue) =
           RClaimed (t_id (tasks queue ! i)) (t_task (tasks queue ! i)) (t_data (tasks queue ! i))
             (t_priority (tasks queue ! i)) (t_retries (tasks queue ! i))
             (spreadTags (t_tags (tasks queue ! i))) \<and>
         result_status (snd (claim now queue)) = ''claimed'')) \<and>
   (\<not> (\<exists>t \<in> set (tasks queue). t_status t = Pending) \<longrightarrow>
      claim now queue = (queue, REmpty) \<and> result_status (snd (claim now queue)) = ''empty'') \<and>
   priorityOrder High = 0 \<and> priorityOrder Normal = 1 \<and> priorityOrder Low = 2"
proof (intro conjI impI)
  assume "\<exists>t \<in> set (tasks queue). t_status t = Pending"
  then have "pendingSorted (tasks queue) \<noteq> []" by (simp add: pendingSorted_Nil_iff)
  then obtain i rest where ps: "pendingSorted (tasks queue) = i # rest"
    by (cases "pendingSorted (tasks queue)") auto
  have "i \<in> set (pendingSorted (tasks queue))" using ps by simp
  then have i: "i < length (tasks queue)" "t_status (tasks queue ! i) = Pending"
    unfolding pendingSorted_set by auto
  have least: "\<forall>j < length (tasks queue). t_status (tasks queue ! j) = Pending \<longrightarrow>
      compareTasks (tasks queue ! i) (tasks queue ! j) \<le> 0"
    using pendingSorted_hd_least [OF ps] unfolding pendingSorted_set by auto
  show "\<exists>i < length (tasks queue).
         t_status (tasks queue ! i) = Pending \<and>
         (\<forall>j < length (tasks queue).
            t_status (tasks queue ! j) = Pending \<longrightarrow>
              priorityOrder (t_priority (tasks queue ! i)) < priorityOrder (t_priority (tasks queue ! j)) \<or>
              (priorityOrder (t_priority (tasks queue ! i)) = priorityOrder (t_priority (tasks queue ! j)) \<and>
               t_createdAt (tasks queue ! i) \<le> t_createdAt (tasks queue ! j))) \<and>
         fst (claim now queue) =
           queue\<lparr>tasks := (tasks queue)[i := (tasks queue ! i)\<lparr>t_status := Claimed,
                                                              t_claimedAt := Some now,
                                                              t_updatedAt := now\<rparr>]\<rparr> \<and>
         snd (claim now queue) =
           RClaimed (t_id (tasks queue ! i)) (t_task (tasks queue ! i)) (t_data (tasks queue ! i))
             (t_priority (tasks queue ! i)) (t_retries (tasks queue ! i))
             (spreadTags (t_tags (tasks queue ! i))) \<and>
         result_status (snd (claim now queue)) = ''claimed''"
    using i least by (intro exI [of _ i]) (simp add: claim_Cons [OF ps] compareTasks_le)
next
  assume "\<not> (\<exists>t \<in> set (tasks queue). t_status t = Pending)"
  then have "pendingSorted (tasks queue) = []" by (simp add: pendingSorted_Nil_iff)
  then show "claim now queue = (queue, REmpty)" by (rule claim_Nil)
  then show "result_status (snd (claim now queue)) = ''empty''" by simp
qed (simp_all add: priorityOrder_def)

theorem claim_ordering_witness:
  "(\<exists>t \<in> set (tasks demoQueue). t_status t = Pending) \<and>
   result_status (snd (claim 4 demoQueue)) = ''claimed'' \<and>
   snd (claim 4 demoQueue) = RClaimed ''b2'' ''high'' None High 0 None \<and>
   \<not> (\<exists>t \<in> set (tasks emptyQueue). t_status t = Pending) \<and>
   claim 4 emptyQueue = (emptyQueue, REmpty)"
proof -
  have p: "\<exists>t \<in> set (tasks demoQueue). t_status t = Pending"
    by (simp add: demoQueue_tasks)
  have e: "\<not> (\<exists>t \<in> set (tasks emptyQueue). t_status t = Pending)"
    by (simp add: emptyQueue_def)
  have c: "snd (claim 4 demoQueue) = RClaimed ''b2'' ''high'' None High 0 None"
    by (simp add: claim_Cons [OF demoQueue_pendingSorted] demoQueue_tasks spreadTags_def)
  from claim_ordering [of demoQueue 4] p
  have "result_status (snd (claim 4 demoQueue)) = ''claimed''" by blast
  moreover from claim_ordering [of emptyQueue 4] e
  have "claim 4 emptyQueue = (emptyQueue, REmpty)" by blast
  ultimately show ?thesis using p e c by blast
qed

subsection \<open>Task queue: retry policy\<close>

lemma findIndex_Some:
  "findIndex P xs = Some i \<Longrightarrow> i < length xs \<and> P (xs ! i)"
proof (induction xs arbitrary: i)
  case Nil
  then show ?case by simp
next
  case (Cons x xs)
  then show ?case by (auto split: if_splits)
qed

lemma findIndex_cong_map:
  "map P xs = map P ys \<Longrightarrow> findIndex P xs = findIndex P ys"
proof (induction xs arbitrary: ys)
  case Nil
  then show ?case by simp
next
  case (Cons x xs)
  then obtain y ys' where ys: "ys = y # ys'" by (cases ys) auto
  with Cons show ?case by auto
qed

lemma findIndex_update_same:
  assumes "i < length xs" "P y = P (xs ! i)"
  shows "findIndex P (xs[i := y]) = findIndex P xs"
proof (rule findIndex_cong_map)
  show "map P (xs[i := y]) = map P xs"
    using assms by (simp add: map_update list_update_same_conv)
qed

lemma findIndex_append:
  "findIndex P xs = Some i \<Longrightarrow> findIndex P (xs @ ys) = Some i"
  by (induction xs arbitrary: i) (auto split: if_splits)

lemma findIndex_append_fresh:
  "\<forall>x \<in> set xs. \<not> P x \<Longrightarrow> P y \<Longrightarrow> findIndex P (xs @ [y]) = Some (length xs)"
  by (induction xs) auto

text \<open>What each action does to the task that \<open>find\<close> returns for a given id.\<close>

lemma fail_found:
  assumes "findIndex (\<lambda>t. t_id t = ident) (tasks q) = Some i"
  shows "fail now ident err q =
     (let error = (case err of None \<Rightarrow> ''Unknown error'' | Some e \<Rightarrow> e);
          task = (tasks q ! i)\<lparr>t_retries := t_retries (tasks q ! i) + 1,
                                t_error := Some error, t_updatedAt := now\<rparr>
      in if t_retries (tasks q ! i) + 1 < t_maxRetries (tasks q ! i)
         then (q\<lparr>tasks := (tasks q)[i := task\<lparr>t_status := Pending, t_claimedAt := None\<rparr>]\<rparr>,
               RRetrying ident (t_retries (tasks q ! i) + 1) (t_maxRetries (tasks q ! i)))
         else (q\<lparr>tasks := (tasks q)[i := task\<lparr>t_status := Failed\<rparr>]\<rparr>,
               RFailed ident (t_retries (tasks q ! i) + 1) error))"
  using assms by (simp add: fail_def Let_def)

lemma update_keeps:
  assumes f: "findIndex (\<lambda>t. t_id t = ident) xs = Some i"
    and j: "j < length xs" and idy: "t_id y = t_id (xs ! j)"
    and m: "t_maxRetries y = t_maxRetries (xs ! j)"
  shows "findIndex (\<lambda>t. t_id t = ident) (xs[j := y]) = Some i \<and>
         t_maxRetries (xs[j := y] ! i) = t_maxRetries (xs ! i) \<and>
         t_retries (xs[j := y] ! i) = (if j = i then t_retries y else t_retries (xs ! i))"
proof -
  have "findIndex (\<lambda>t. t_id t = ident) (xs[j := y]) = findIndex (\<lambda>t. t_id t = ident) xs"
    by (rule findIndex_update_same) (use j idy in simp_all)
  moreover have "i < length xs" using findIndex_Some [OF f] by simp
  ultimately show ?thesis using f j m by (cases "j = i") simp_all
qed

lemma step_keeps:
  assumes f: "findIndex (\<lambda>t. t_id t = ident) (tasks q) = Some i" and nc: "\<not> isClear a"
  shows "findIndex (\<lambda>t. t_id t = ident) (tasks (fst (execute_queue a q))) = Some i \<and>
         t_maxRetries (tasks (fst (execute_queue a q)) ! i) = t_maxRetries (tasks q ! i) \<and>
         t_retries (tasks (fst (execute_queue a q)) ! i) = t_retries (tasks q ! i) + int (failsOf ident [a])"
proof (cases a)
  case (Add now newId task data priority maxRetries tags)
  have "i < length (tasks q)" using findIndex_Some [OF f] by simp
  then show ?thesis using f Add by (simp add: add_def Let_def findIndex_append nth_append)
next
  case (Claim now)
  show ?thesis
  proof (cases "pendingSorted (tasks q)")
    case Nil
    then show ?thesis using f Claim by (simp add: claim_def)
  next
    case (Cons j rest)
    have "j \<in> {k. k < length (tasks q) \<and> t_status (tasks q ! k) = Pending}"
      using Cons pendingSorted_set [of "tasks q"] by (metis list.set_intros(1))
    then have j: "j < length (tasks q)" by simp
    show ?thesis
      using update_keeps [OF f j, of "(tasks q ! j)\<lparr>t_status := Claimed, t_claimedAt := Some now, t_updatedAt := now\<rparr>"]
      by (simp add: Claim claim_Cons [OF Cons])
  qed
next
  case (Complete now ident2 res)
  show ?thesis
  proof (cases "findIndex (\<lambda>t. t_id t = ident2) (tasks q)")
    case None
    then show ?thesis using f Complete by (simp add: complete_def)
  next
    case (Some j)
    have j: "j < length (tasks q)" using findIndex_Some [OF Some] by simp
    show ?thesis
      using update_keeps [OF f j, of "(tasks q ! j)\<lparr>t_status := Done, t_completedAt := Some now, t_updatedAt := now, t_result := res\<rparr>"]
      by (simp add: Complete complete_def Some Let_def)
  qed
next
  case (Fail now ident2 err)
  show ?thesis
  proof (cases "findIndex (\<lambda>t. t_id t = ident2) (tasks q)")
    case None
    then have "ident2 \<noteq> ident" using f by auto
    then show ?thesis using f Fail None by (simp add: fail_def)
  next
    case (Some j)
    have j: "j < length (tasks q)" "t_id (tasks q ! j) = ident2" using findIndex_Some [OF Some] by simp_all
    have i: "t_id (tasks q ! i) = ident" using findIndex_Some [OF f] by simp
    have ji: "j = i \<longleftrightarrow> ident2 = ident"
    proof
      assume "j = i"
      then show "ident2 = ident" using j(2) i by simp
    next
      assume "ident2 = ident"
      then have "Some j = Some i" using f Some by simp
      then show "j = i" by simp
    qed
    let ?e = "case err of None \<Rightarrow> ''Unknown error'' | Some e \<Rightarrow> e"
    let ?t = "(tasks q ! j)\<lparr>t_retries := t_retries (tasks q ! j) + 1, t_error := Some ?e, t_updatedAt := now\<rparr>"
    have fo: "failsOf ident [a] = (if j = i then 1 else 0)" using Fail ji by simp
    show ?thesis
    proof (cases "t_retries (tasks q ! j) + 1 < t_maxRetries (tasks q ! j)")
      case True
      have st: "tasks (fst (execute_queue a q)) = (tasks q)[j := ?t\<lparr>t_status := Pending, t_claimedAt := None\<rparr>]"
        using True by (simp add: Fail fail_found [OF Some] Let_def)
      show ?thesis
        unfolding st fo
        using update_keeps [OF f j(1), of "?t\<lparr>t_status := Pending, t_claimedAt := None\<rparr>"]
        by (cases "j = i") simp_all
    next
      case False
      have st: "tasks (fst (execute_queue a q)) = (tasks q)[j := ?t\<lparr>t_status := Failed\<rparr>]"
        using False by (simp add: Fail fail_found [OF Some] Let_def)
      show ?thesis
        unfolding st fo
        using update_keeps [OF f j(1), of "?t\<lparr>t_status := Failed\<rparr>"]
        by (cases "j = i") simp_all
    qed
  qed
next
  case (Retry now ident2)
  show ?thesis
  proof (cases "findIndex (\<lambda>t. t_id t = ident2) (tasks q)")
    case None
    then show ?thesis using f Retry by (simp add: retry_def)
  next
    case (Some j)
    have j: "j < length (tasks q)" using findIndex_Some [OF Some] by simp
    show ?thesis
      using update_keeps [OF f j, of "(tasks q ! j)\<lparr>t_status := Pending, t_claimedAt := None, t_error := None, t_updatedAt := now\<rparr>"]
      by (simp add: Retry retry_def Some Let_def)
  qed
next
  case (Clear now h)
  then show ?thesis using nc by simp
qed

lemma failsOf_Cons: "failsOf ident (a # as) = failsOf ident [a] + failsOf ident as"
  by (cases a) simp_all

lemma run_keeps:
  assumes "findIndex (\<lambda>t. t_id t = ident) (tasks q) = Some i" "list_all (\<lambda>a. \<not> isClear a) acts"
  shows "findIndex (\<lambda>t. t_id t = ident) (tasks (run_queue acts q)) = Some i \<and>
         t_maxRetries (tasks (run_queue acts q) ! i) = t_maxRetries (tasks q ! i) \<and>
         t_retries (tasks (run_queue acts q) ! i) = t_retries (tasks q ! i) + int (failsOf ident acts)"
  using assms
proof (induction acts arbitrary: q)
  case Nil
  then show ?case by simp
next
  case (Cons a acts)
  have nc: "\<not> isClear a" and rest: "list_all (\<lambda>a. \<not> isClear a) acts" using Cons.prems(2) by simp_all
  note s = step_keeps [OF Cons.prems(1) nc]
  from Cons.IH [OF conjunct1 [OF s] rest] s
  show ?case by (simp add: failsOf_Cons [of ident a acts])
qed


lemma add_tasks:
  "tasks (fst (add now newId task data priority maxRetries tags q)) =
     tasks q @ [\<lparr> t_id = newId, t_task = task, t_data = data,
                   t_priority = (case priority of None \<Rightarrow> Normal | Some p \<Rightarrow> p),
                   t_status = Pending, t_retries = 0,
                   t_maxRetries = (case maxRetries of None \<Rightarrow> 3 | Some n \<Rightarrow> n),
                   t_createdAt = now, t_updatedAt = now, t_claimedAt = None,
                   t_completedAt = None, t_result = None, t_error = None,
                   t_tags = spreadTags tags \<rparr>]"
  by (simp add: add_def Let_def)

text \<open>
  Claim C1 (amended).  Take a task added under an id that no task of the queue has, with
  \<open>maxRetries = N\<close> (3 when absent), and any later history without \<open>clear\<close> that contains
  \<open>k - 1\<close> calls of \<open>fail\<close> for that id.  The next, \<open>k\<close>-th \<open>fail\<close> compares after the
  increment: it answers \<open>"retrying"\<close> and leaves the task pending exactly when \<open>k < N\<close>;
  otherwise it answers \<open>"failed"\<close> and the task is failed; either way \<open>retries = k\<close>.  So
  \<open>maxRetries = 0\<close> and \<open>maxRetries = 1\<close> fail on the first failure, and \<open>maxRetries = N \<ge> 1\<close>
  returns the task to pending on its first \<open>N - 1\<close> failures and fails it on the \<open>N\<close>-th.
\<close>

theorem fail_after_increment:
  assumes fresh: "\<forall>t \<in> set (tasks q). t_id t \<noteq> newId"
    and noClear: "list_all (\<lambda>a. \<not> isClear a) acts"
  shows "result_status
           (snd (fail now newId err
                   (run_queue acts (fst (add now0 newId task data priority maxRetries tags q))))) =
         (if int (failsOf newId acts) + 1 < (case maxRetries of None \<Rightarrow> 3 | Some n \<Rightarrow> n)
          then ''retrying'' else ''failed'') \<and>
         t_status
           (tasks (fst (fail now newId err
                     (run_queue acts (fst (add now0 newId task data priority maxRetries tags q)))))
            ! length (tasks q)) =
         (if int (failsOf newId acts) + 1 < (case maxRetries of None \<Rightarrow> 3 | Some n \<Rightarrow> n)
          then Pending else Failed) \<and>
         t_retries
           (tasks (fst (fail now newId err
                     (run_queue acts (fst (add now0 newId task data priority maxRetries tags q)))))
            ! length (tasks q)) =
         int (failsOf newId acts) + 1"
proof -
  let ?q1 = "fst (add now0 newId task data priority maxRetries tags q)"
  let ?n = "length (tasks q)"
  have f1: "findIndex (\<lambda>t. t_id t = newId) (tasks ?q1) = Some ?n"
    unfolding add_tasks by (rule findIndex_append_fresh) (use fresh in simp_all)
  have r1: "t_retries (tasks ?q1 ! ?n) = 0"
    and m1: "t_maxRetries (tasks ?q1 ! ?n) = (case maxRetries of None \<Rightarrow> 3 | Some n \<Rightarrow> n)"
    unfolding add_tasks by simp_all
  note k = run_keeps [OF f1 noClear]
  have len: "?n < length (tasks (run_queue acts ?q1))"
    using findIndex_Some [OF conjunct1 [OF k]] by simp
  show ?thesis
    using k r1 m1 len by (simp add: fail_found [OF conjunct1 [OF k]] Let_def)
qed

theorem fail_after_increment_witness:
  "tasks emptyQueue = [] \<and>
   failsOf ''f1'' [Claim 2, Fail 3 ''f1'' (Some ''timeout'')] = 1 \<and>
   result_status
     (snd (fail 5 ''f1'' None
             (run_queue [Claim 2, Fail 3 ''f1'' (Some ''timeout'')]
                (fst (add 1 ''f1'' ''Flaky task'' None None (Some 3) None emptyQueue))))) =
   ''retrying''"
proof -
  have a: "\<forall>t \<in> set (tasks emptyQueue). t_id t \<noteq> ''f1''" by (simp add: emptyQueue_def)
  have b: "list_all (\<lambda>a. \<not> isClear a) [Claim 2, Fail 3 ''f1'' (Some ''timeout'')]" by simp
  show ?thesis
    using conjunct1 [OF fail_after_increment [OF a b, of 5 None 1 "''Flaky task''" None None "Some 3" None]]
    by (simp add: emptyQueue_def)
qed

text \<open>
  Claim C1 as stated does not hold: with \<open>maxRetries = 2\<close> the second failure is already
  final (the scenario of the test "fail permanently after maxRetries").
\<close>

theorem fail_counterexample:
  "result_status
     (snd (fail 5 ''a1'' (Some ''err2'')
             (run_queue [Claim 2, Fail 3 ''a1'' (Some ''err''), Claim 4]
                (fst (add 1 ''a1'' ''Always fails'' None None (Some 2) None emptyQueue))))) =
   ''failed''"
  by (simp add: add_def emptyQueue_def spreadTags_def claim_def pendingSorted_def fail_def
        Let_def upt_rec)


subsection \<open>Task queue: state machine\<close>

lemma list_update_all:
  "\<forall>t \<in> set xs. P t \<Longrightarrow> P y \<Longrightarrow> \<forall>t \<in> set (xs[i := y]). P t"
  using set_update_subset_insert [of xs i y] by blast

lemma step_inv:
  assumes inv: "\<forall>t \<in> set (tasks q). taskInv t"
  shows "\<forall>t \<in> set (tasks (fst (execute_queue a q))). taskInv t"
proof (cases a)
  case (Add now newId task data priority maxRetries tags)
  then show ?thesis using inv by (simp add: add_tasks taskInv_def)
next
  case (Claim now)
  show ?thesis
  proof (cases "pendingSorted (tasks q)")
    case Nil
    then show ?thesis using inv Claim by (simp add: claim_def)
  next
    case (Cons j rest)
    have "\<forall>t \<in> set ((tasks q)[j := (tasks q ! j)\<lparr>t_status := Claimed, t_claimedAt := Some now,
                                                  t_updatedAt := now\<rparr>]). taskInv t"
      by (rule list_update_all [OF inv]) (simp add: taskInv_def)
    then show ?thesis by (simp add: Claim claim_Cons [OF Cons])
  qed
next
  case (Complete now ident res)
  show ?thesis
  proof (cases "findIndex (\<lambda>t. t_id t = ident) (tasks q)")
    case None
    then show ?thesis using inv Complete by (simp add: complete_def)
  next
    case (Some j)
    have "\<forall>t \<in> set ((tasks q)[j := (tasks q ! j)\<lparr>t_status := Done, t_completedAt := Some now,
                                                  t_updatedAt := now, t_result := res\<rparr>]). taskInv t"
      by (rule list_update_all [OF inv]) (simp add: taskInv_def)
    then show ?thesis by (simp add: Complete complete_def Some Let_def)
  qed
next
  case (Fail now ident err)
  show ?thesis
  proof (cases "findIndex (\<lambda>t. t_id t = ident) (tasks q)")
    case None
    then show ?thesis using inv Fail by (simp add: fail_def)
  next
    case (Some j)
    let ?e = "case err of None \<Rightarrow> ''Unknown error'' | Some e \<Rightarrow> e"
    let ?t = "(tasks q ! j)\<lparr>t_retries := t_retries (tasks q ! j) + 1, t_error := Some ?e,
                              t_updatedAt := now\<rparr>"
    show ?thesis
    proof (cases "t_retries (tasks q ! j) + 1 < t_maxRetries (tasks q ! j)")
      case True
      have "\<forall>t \<in> set ((tasks q)[j := ?t\<lparr>t_status := Pending, t_claimedAt := None\<rparr>]). taskInv t"
        by (rule list_update_all [OF inv]) (simp add: taskInv_def)
      then show ?thesis using True by (simp add: Fail fail_found [OF Some] Let_def)
    next
      case False
      have "\<forall>t \<in> set ((tasks q)[j := ?t\<lparr>t_status := Failed\<rparr>]). taskInv t"
        by (rule list_update_all [OF inv]) (use False in \<open>simp add: taskInv_def\<close>)
      then show ?thesis using False by (simp add: Fail fail_found [OF Some] Let_def)
    qed
  qed
next
  case (Retry now ident)
  show ?thesis
  proof (cases "findIndex (\<lambda>t. t_id t = ident) (tasks q)")
    case None
    then show ?thesis using inv Retry by (simp add: retry_def)
  next
    case (Some j)
    have "\<forall>t \<in> set ((tasks q)[j := (tasks q ! j)\<lparr>t_status := Pending, t_claimedAt := None,
                                                  t_error := None, t_updatedAt := now\<rparr>]). taskInv t"
      by (rule list_update_all [OF inv]) (simp add: taskInv_def)
    then show ?thesis by (simp add: Retry retry_def Some Let_def)
  qed
next
  case (Clear now h)
  then show ?thesis using inv by (simp add: clear_def Let_def)
qed

lemma run_inv:
  "\<forall>t \<in> set (tasks q). taskInv t \<Longrightarrow> \<forall>t \<in> set (tasks (run_queue acts q)). taskInv t"
proof (induction acts arbitrary: q)
  case Nil
  then show ?case by simp
next
  case (Cons a acts)
  show ?case using Cons.IH [OF step_inv [OF Cons.prems]] by simp
qed

lemma complete_found:
  "findIndex (\<lambda>t. t_id t = ident) (tasks q) = Some i \<Longrightarrow>
   complete now ident res q =
     (q\<lparr>tasks := (tasks q)[i := (tasks q ! i)\<lparr>t_status := Done, t_completedAt := Some now,
                                               t_updatedAt := now, t_result := res\<rparr>]\<rparr>,
      RCompleted ident)"
  by (simp add: complete_def Let_def)

lemma retry_found:
  "findIndex (\<lambda>t. t_id t = ident) (tasks q) = Some i \<Longrightarrow>
   retry now ident q =
     (q\<lparr>tasks := (tasks q)[i := (tasks q ! i)\<lparr>t_status := Pending, t_claimedAt := None,
                                               t_error := None, t_updatedAt := now\<rparr>]\<rparr>,
      RResetToPending ident)"
  by (simp add: retry_def Let_def)

lemma doneHistory_tasks:
  "tasks (run_queue doneHistory emptyQueue) =
     [\<lparr>t_id = ''a1'', t_task = ''Do thing'', t_data = None, t_priority = Normal, t_status = Done,
       t_retries = 0, t_maxRetries = 3, t_createdAt = 1, t_updatedAt = 3, t_claimedAt = Some 2,
       t_completedAt = Some 3, t_result = None, t_error = None, t_tags = None\<rparr>]"
  by (simp add: doneHistory_def add_def emptyQueue_def spreadTags_def claim_def pendingSorted_def
        complete_def Let_def upt_rec)

lemma failedHistory_tasks:
  "tasks (run_queue failedHistory emptyQueue) =
     [\<lparr>t_id = ''r1'', t_task = ''retry me'', t_data = None, t_priority = Normal,
       t_status = Failed, t_retries = 1, t_maxRetries = 0, t_createdAt = 1, t_updatedAt = 3,
       t_claimedAt = Some 2, t_completedAt = None, t_result = None, t_error = Some ''oops'',
       t_tags = None\<rparr>]"
  by (simp add: failedHistory_def add_def emptyQueue_def spreadTags_def claim_def pendingSorted_def
        fail_def Let_def upt_rec)

text \<open>
  Claim C2 (amended).  In every queue reached from the empty document by any history of
  add, claim, complete, fail, retry and clear, a done task has \<open>completedAt\<close> set, a failed
  task has \<open>retries \<ge> maxRetries\<close> and a claimed task has \<open>claimedAt\<close> set.  The actions
  complete, retry and fail do not look at the current status: on the first task with the
  given id, whatever its status, \<open>complete\<close> sets status done with \<open>completedAt\<close> and
  \<open>result\<close>; \<open>retry\<close> sets status pending and clears \<open>error\<close> and \<open>claimedAt\<close>, leaving
  \<open>retries\<close>; \<open>fail\<close> increments \<open>retries\<close> and sets pending or failed.
\<close>

theorem queue_state_machine:
  "(\<forall>t \<in> set (tasks (run_queue acts emptyQueue)).
      (t_status t = Done \<longrightarrow> t_completedAt t \<noteq> None) \<and>
      (t_status t = Failed \<longrightarrow> t_maxRetries t \<le> t_retries t) \<and>
      (t_status t = Claimed \<longrightarrow> t_claimedAt t \<noteq> None)) \<and>
   (findIndex (\<lambda>t. t_id t = ident) (tasks q) = Some i \<longrightarrow>
      complete now ident res q =
        (q\<lparr>tasks := (tasks q)[i := (tasks q ! i)\<lparr>t_status := Done, t_completedAt := Some now,
                                                  t_updatedAt := now, t_result := res\<rparr>]\<rparr>,
         RCompleted ident) \<and>
      retry now ident q =
        (q\<lparr>tasks := (tasks q)[i := (tasks q ! i)\<lparr>t_status := Pending, t_claimedAt := None,
                                                  t_error := None, t_updatedAt := now\<rparr>]\<rparr>,
         RResetToPending ident) \<and>
      t_retries (tasks (fst (fail now ident err q)) ! i) = t_retries (tasks q ! i) + 1 \<and>
      t_status (tasks (fst (fail now ident err q)) ! i) =
        (if t_retries (tasks q ! i) + 1 < t_maxRetries (tasks q ! i) then Pending else Failed))"
proof (intro conjI impI)
  have "\<forall>t \<in> set (tasks emptyQueue). taskInv t" by (simp add: emptyQueue_def)
  from run_inv [OF this, of acts]
  show "\<forall>t \<in> set (tasks (run_queue acts emptyQueue)).
      (t_status t = Done \<longrightarrow> t_completedAt t \<noteq> None) \<and>
      (t_status t = Failed \<longrightarrow> t_maxRetries t \<le> t_retries t) \<and>
      (t_status t = Claimed \<longrightarrow> t_claimedAt t \<noteq> None)"
    by (simp add: taskInv_def)
next
  assume f: "findIndex (\<lambda>t. t_id t = ident) (tasks q) = Some i"
  have i: "i < length (tasks q)" using findIndex_Some [OF f] by simp
  show "complete now ident res q =
        (q\<lparr>tasks := (tasks q)[i := (tasks q ! i)\<lparr>t_status := Done, t_completedAt := Some now,
                                                  t_updatedAt := now, t_result := res\<rparr>]\<rparr>,
         RCompleted ident)"
    by (rule complete_found [OF f])
  show "retry now ident q =
        (q\<lparr>tasks := (tasks q)[i := (tasks q ! i)\<lparr>t_status := Pending, t_claimedAt := None,
                                                  t_error := None, t_updatedAt := now\<rparr>]\<rparr>,
         RResetToPending ident)"
    by (rule retry_found [OF f])
  show "t_retries (tasks (fst (fail now ident err q)) ! i) = t_retries (tasks q ! i) + 1"
    using i by (simp add: fail_found [OF f] Let_def)
  show "t_status (tasks (fst (fail now ident err q)) ! i) =
        (if t_retries (tasks q ! i) + 1 < t_maxRetries (tasks q ! i) then Pending else Failed)"
    using i by (simp add: fail_found [OF f] Let_def)
qed

theorem queue_state_machine_witness:
  "t_status (tasks (run_queue doneHistory emptyQueue) ! 0) = Done \<and>
   t_completedAt (tasks (run_queue doneHistory emptyQueue) ! 0) \<noteq> None \<and>
   t_status (tasks (run_queue failedHistory emptyQueue) ! 0) = Failed \<and>
   t_maxRetries (tasks (run_queue failedHistory emptyQueue) ! 0)
     \<le> t_retries (tasks (run_queue failedHistory emptyQueue) ! 0) \<and>
   findIndex (\<lambda>t. t_id t = ''a1'') (tasks (run_queue doneHistory emptyQueue)) = Some 0 \<and>
   t_status (tasks (fst (retry 4 ''a1'' (run_queue doneHistory emptyQueue))) ! 0) = Pending"
proof -
  have d: "t_status (tasks (run_queue doneHistory emptyQueue) ! 0) = Done"
    by (simp add: doneHistory_tasks)
  have m0: "tasks (run_queue doneHistory emptyQueue) ! 0 \<in> set (tasks (run_queue doneHistory emptyQueue))"
    by (simp add: doneHistory_tasks)
  have e: "t_status (tasks (run_queue failedHistory emptyQueue) ! 0) = Failed"
    by (simp add: failedHistory_tasks)
  have n0: "tasks (run_queue failedHistory emptyQueue) ! 0 \<in> set (tasks (run_queue failedHistory emptyQueue))"
    by (simp add: failedHistory_tasks)
  have f: "findIndex (\<lambda>t. t_id t = ''a1'') (tasks (run_queue doneHistory emptyQueue)) = Some 0"
    by (simp add: doneHistory_tasks)
  note m = queue_state_machine [of doneHistory "''a1''" "run_queue doneHistory emptyQueue" 0 4 None None]
  note n = queue_state_machine [of failedHistory "''a1''" "run_queue doneHistory emptyQueue" 0 4 None None]
  have "t_completedAt (tasks (run_queue doneHistory emptyQueue) ! 0) \<noteq> None"
    using conjunct1 [OF m] d m0 by blast
  moreover have "t_maxRetries (tasks (run_queue failedHistory emptyQueue) ! 0)
     \<le> t_retries (tasks (run_queue failedHistory emptyQueue) ! 0)"
    using conjunct1 [OF n] e n0 by blast
  moreover have "t_status (tasks (fst (retry 4 ''a1'' (run_queue doneHistory emptyQueue))) ! 0) = Pending"
    using conjunct2 [OF m] f by (simp add: doneHistory_tasks)
  ultimately show ?thesis using d e f by blast
qed

text \<open>
  Claim C2 as stated does not hold: \<open>retry\<close> moves a done task back to pending, and
  \<open>complete\<close> marks a task done that was never claimed.
\<close>

theorem retry_from_done_counterexample:
  "t_status (tasks (run_queue doneHistory emptyQueue) ! 0) = Done \<and>
   t_status (tasks (fst (retry 4 ''a1'' (run_queue doneHistory emptyQueue))) ! 0) = Pending \<and>
   t_status (tasks (fst (complete 2 ''a1'' None
       (fst (add 1 ''a1'' ''Do thing'' None None None None emptyQueue)))) ! 0) = Done"
proof (intro conjI)
  show "t_status (tasks (run_queue doneHistory emptyQueue) ! 0) = Done"
    by (simp add: doneHistory_tasks)
  show "t_status (tasks (fst (retry 4 ''a1'' (run_queue doneHistory emptyQueue))) ! 0) = Pending"
    by (simp add: doneHistory_tasks retry_def Let_def)
  show "t_status (tasks (fst (complete 2 ''a1'' None
       (fst (add 1 ''a1'' ''Do thing'' None None None None emptyQueue)))) ! 0) = Done"
    by (simp add: complete_def add_def emptyQueue_def Let_def)
qed

subsection \<open>Message board: reading with the \<open>last_read\<close> sentinel\<close>

lemma map_filter_replicate: "List.map_filter (\<lambda>l. l) (replicate n (Some x)) = replicate n x"
  by (induction n) simp_all

lemma slice_negative:
  "0 < limit \<Longrightarrow> slice (- limit) xs = drop (length xs - nat limit) xs"
  by (simp add: slice_def Let_def max_def nat_diff_distrib')

lemma read_last_read:
  "board_read parseDate files board (Some ''last_read'') limitParam =
     \<lparr> b_status = ''ok'', b_board = board,
       b_count = length (slice (- (case limitParam of None \<Rightarrow> 50 | Some l \<Rightarrow> l)) (readBoard files board)),
       b_messages = slice (- (case limitParam of None \<Rightarrow> 50 | Some l \<Rightarrow> l)) (readBoard files board) \<rparr>"
  by (simp add: board_read_def Let_def)

lemma readBoard_fullBoard: "readBoard fullBoard ''plan'' = replicate 51 demoMessage"
  by (simp add: readBoard_def fullBoard_def map_filter_replicate)

text \<open>
  Claim C3 (amended).  A read with \<open>since = "last_read"\<close> applies no timestamp filter, but
  the limit still applies: for a positive limit (50 when absent) it returns the last
  \<open>limit\<close> messages of the board in file order, which is the whole board exactly when the
  board holds at most \<open>limit\<close> messages; \<open>count\<close> is the number of messages returned.
\<close>

theorem last_read_tail:
  "(0 < (case limitParam of None \<Rightarrow> 50 | Some l \<Rightarrow> l) \<longrightarrow>
      b_messages (board_read parseDate files board (Some ''last_read'') limitParam) =
        drop (length (readBoard files board) - nat (case limitParam of None \<Rightarrow> 50 | Some l \<Rightarrow> l))
          (readBoard files board)) \<and>
   (0 < (case limitParam of None \<Rightarrow> 50 | Some l \<Rightarrow> l) \<and>
    int (length (readBoard files board)) \<le> (case limitParam of None \<Rightarrow> 50 | Some l \<Rightarrow> l) \<longrightarrow>
      b_messages (board_read parseDate files board (Some ''last_read'') limitParam) =
        readBoard files board) \<and>
   b_count (board_read parseDate files board (Some ''last_read'') limitParam) =
     length (b_messages (board_read parseDate files board (Some ''last_read'') limitParam))"
  by (auto simp: read_last_read slice_negative)

theorem last_read_tail_witness:
  "(0::int) < 50 \<and>
   b_messages (board_read noDate fullBoard ''plan'' (Some ''last_read'') None) =
     replicate 50 demoMessage \<and>
   int (length (readBoard fullBoard ''plan'')) \<le> 60 \<and>
   b_messages (board_read noDate fullBoard ''plan'' (Some ''last_read'') (Some 60)) =
     readBoard fullBoard ''plan''"
  using last_read_tail [of None noDate fullBoard "''plan''"]
    last_read_tail [of "Some 60" noDate fullBoard "''plan''"]
  by (simp add: readBoard_fullBoard)

text \<open>
  Claim C3 as stated does not hold: of a board with 51 messages a \<open>last_read\<close> read with
  the default limit returns 50.
\<close>

theorem last_read_counterexample:
  "length (readBoard fullBoard ''plan'') = 51 \<and>
   b_count (board_read noDate fullBoard ''plan'' (Some ''last_read'') None) = 50"
  by (simp add: read_last_read readBoard_fullBoard slice_def Let_def)

subsection \<open>Knowledge store\<close>

lemma getProperty_Some: "getProperty (Some v) name = Own v"
  by (simp add: getProperty_def)

lemma getProperty_None:
  "getProperty None name = (if name \<in> set objectPrototypeNames then Inherited else Missing)"
  by (simp add: getProperty_def)

lemma proto_in_names: "''__proto__'' \<in> set objectPrototypeNames"
  by (simp add: objectPrototypeNames_def)

lemma set_get_same:
  assumes "category \<notin> set objectPrototypeNames" and "key \<noteq> ''__proto__''"
  shows "\<exists>created.
           knowledge_get category key (fst (knowledge_set now category key (Some d) tags store)) =
             KOk category key d created now (spreadTags (spreadTags tags)) \<and>
           created = (case (case store category of None \<Rightarrow> None | Some c \<Rightarrow> c key) of
                        None \<Rightarrow> now | Some e \<Rightarrow> k_createdAt e)"
proof (cases "store category")
  case None
  then show ?thesis using assms
    by (simp add: knowledge_set_def knowledge_get_def getProperty_def setProperty_def
        assignsOwn_def Let_def)
next
  case (Some c)
  then show ?thesis using assms
    by (cases "c key")
       (simp_all add: knowledge_set_def knowledge_get_def getProperty_def setProperty_def
          assignsOwn_def Let_def)
qed

lemma set_keeps_category:
  assumes "category \<notin> set objectPrototypeNames" and "key \<noteq> ''__proto__''"
  shows "\<exists>c e. fst (knowledge_set now category key (Some d) tags store) category = Some c \<and>
           c key = Some e \<and> k_data e = d \<and> k_updatedAt e = now \<and>
           k_createdAt e = (case (case store category of None \<Rightarrow> None | Some c \<Rightarrow> c key) of
                        None \<Rightarrow> now | Some e \<Rightarrow> k_createdAt e)"
proof (cases "store category")
  case None
  then show ?thesis using assms
    by (simp add: knowledge_set_def getProperty_def setProperty_def assignsOwn_def Let_def)
next
  case (Some c)
  then show ?thesis using assms
    by (cases "c key")
       (simp_all add: knowledge_set_def getProperty_def setProperty_def assignsOwn_def Let_def)
qed

lemma set_updates_own:
  assumes "store category = Some c" and "c key = Some e"
  shows "knowledge_set now category key (Some d) tags store =
           (store(category \<mapsto> c(key \<mapsto> \<lparr> k_data = d, k_createdAt = k_createdAt e,
                                            k_updatedAt = now, k_tags = spreadTags tags \<rparr>)),
            KUpdated category key)"
  using assms
  by (simp add: knowledge_set_def getProperty_def setProperty_def assignsOwn_def truthy_def Let_def)

text \<open>
  Claim C7 (amended).  Let the category name no member of \<open>Object.prototype\<close> and let the
  key differ from \<open>__proto__\<close>.  After \<open>set\<close> with data \<open>d1\<close>, \<open>get\<close> on the same
  category and key returns \<open>d1\<close>.  A second \<open>set\<close> on them answers \<open>"updated"\<close>, and
  \<open>get\<close> then returns the new data with the \<open>createdAt\<close> of the first \<open>get\<close> and with
  \<open>updatedAt\<close> equal to the clock reading of the second \<open>set\<close>, as the first \<open>get\<close> had
  the reading of the first.
\<close>

theorem knowledge_roundtrip:
  assumes cat: "category \<notin> set objectPrototypeNames" and key: "key \<noteq> ''__proto__''"
  shows "\<exists>created tags1' tags2'.
           knowledge_get category key (fst (knowledge_set now1 category key (Some d1) tags1 store)) =
             KOk category key d1 created now1 tags1' \<and>
           knowledge_set now2 category key (Some d2) tags2
                (fst (knowledge_set now1 category key (Some d1) tags1 store)) =
             (fst (knowledge_set now2 category key (Some d2) tags2
                (fst (knowledge_set now1 category key (Some d1) tags1 store))),
              KUpdated category key) \<and>
           knowledge_get category key
             (fst (knowledge_set now2 category key (Some d2) tags2
                (fst (knowledge_set now1 category key (Some d1) tags1 store)))) =
             KOk category key d2 created now2 tags2'"
proof -
  let ?s1 = "fst (knowledge_set now1 category key (Some d1) tags1 store)"
  let ?s2 = "fst (knowledge_set now2 category key (Some d2) tags2 ?s1)"
  from set_keeps_category [OF cat key, of now1 d1 tags1 store]
  obtain c e where c: "?s1 category = Some c" and e: "c key = Some e"
    and ed: "k_data e = d1" "k_updatedAt e = now1" by blast
  from set_get_same [OF cat key, of now1 d1 tags1 store]
  have g1: "knowledge_get category key ?s1 =
      KOk category key d1 (k_createdAt e) now1 (spreadTags (spreadTags tags1))"
    using c e by (simp add: knowledge_get_def getProperty_def)
  have u: "knowledge_set now2 category key (Some d2) tags2 ?s1 = (?s2, KUpdated category key)"
    using set_updates_own [where store = ?s1 and category = category and c = c and key = key
        and e = e, OF c e]
    by simp
  from set_get_same [OF cat key, of now2 d2 tags2 ?s1]
  have g2: "knowledge_get category key ?s2 =
      KOk category key d2 (k_createdAt e) now2 (spreadTags (spreadTags tags2))"
    using c e by simp
  show ?thesis using g1 u g2 by blast
qed

theorem knowledge_roundtrip_witness:
  "knowledge_get ''contacts'' ''sean''
     (fst (knowledge_set 10 ''contacts'' ''sean'' (Some (JStr ''Sean'')) None emptyStore)) =
     KOk ''contacts'' ''sean'' (JStr ''Sean'') 10 10 None \<and>
   knowledge_get ''contacts'' ''sean''
     (fst (knowledge_set 20 ''contacts'' ''sean'' (Some (JStr ''Sean Durkan'')) None
        (fst (knowledge_set 10 ''contacts'' ''sean'' (Some (JStr ''Sean'')) None emptyStore)))) =
     KOk ''contacts'' ''sean'' (JStr ''Sean Durkan'') 10 20 None"
proof -
  have c: "''contacts'' \<notin> set objectPrototypeNames" by (simp add: objectPrototypeNames_def)
  have k: "''sean'' \<noteq> ''__proto__''" by simp
  from knowledge_roundtrip [OF c k, of 10 "JStr ''Sean''" None emptyStore 20
       "JStr ''Sean Durkan''" None]
  obtain created t1 t2 where
    a: "knowledge_get ''contacts'' ''sean''
          (fst (knowledge_set 10 ''contacts'' ''sean'' (Some (JStr ''Sean'')) None emptyStore)) =
        KOk ''contacts'' ''sean'' (JStr ''Sean'') created 10 t1"
    and b: "knowledge_get ''contacts'' ''sean''
     (fst (knowledge_set 20 ''contacts'' ''sean'' (Some (JStr ''Sean Durkan'')) None
        (fst (knowledge_set 10 ''contacts'' ''sean'' (Some (JStr ''Sean'')) None emptyStore)))) =
     KOk ''contacts'' ''sean'' (JStr ''Sean Durkan'') created 20 t2"
    by blast
  have a': "knowledge_get ''contacts'' ''sean''
          (fst (knowledge_set 10 ''contacts'' ''sean'' (Some (JStr ''Sean'')) None emptyStore)) =
        KOk ''contacts'' ''sean'' (JStr ''Sean'') 10 10 None"
    by (simp add: knowledge_set_def knowledge_get_def getProperty_def setProperty_def
        assignsOwn_def emptyStore_def objectPrototypeNames_def spreadTags_def Let_def)
  from a a' have "created = 10" "t1 = None" by simp_all
  moreover have "t2 = None"
    using b
    by (simp add: knowledge_set_def knowledge_get_def getProperty_def setProperty_def
        assignsOwn_def emptyStore_def objectPrototypeNames_def spreadTags_def Let_def)
  ultimately show ?thesis using a b by simp
qed

text \<open>
  Claim C7 as stated does not hold.  For the key \<open>__proto__\<close> the first \<open>set\<close> answers
  \<open>"updated"\<close>, and the \<open>get\<close> that follows throws instead of returning the data.  And
  \<open>updatedAt\<close> is the reading of \<open>Date.now()\<close>, which nothing in the code keeps from
  decreasing: after a \<open>set\<close> at reading 20, a \<open>set\<close> at reading 10 leaves \<open>updatedAt\<close> at
  10.
\<close>

theorem proto_key_counterexample:
  "knowledge_set 10 ''contacts'' ''__proto__'' (Some (JStr ''Sean'')) None emptyStore =
     (fst (knowledge_set 10 ''contacts'' ''__proto__'' (Some (JStr ''Sean'')) None emptyStore),
      KUpdated ''contacts'' ''__proto__'') \<and>
   knowledge_get ''contacts'' ''__proto__''
     (fst (knowledge_set 10 ''contacts'' ''__proto__'' (Some (JStr ''Sean'')) None emptyStore)) =
     KThrew ''RangeError'' \<and>
   knowledge_get ''contacts'' ''sean''
     (fst (knowledge_set 20 ''contacts'' ''sean'' (Some (JStr ''Sean'')) None emptyStore)) =
     KOk ''contacts'' ''sean'' (JStr ''Sean'') 20 20 None \<and>
   knowledge_get ''contacts'' ''sean''
     (fst (knowledge_set 10 ''contacts'' ''sean'' (Some (JStr ''Sean Durkan'')) None
        (fst (knowledge_set 20 ''contacts'' ''sean'' (Some (JStr ''Sean'')) None emptyStore)))) =
     KOk ''contacts'' ''sean'' (JStr ''Sean Durkan'') 20 10 None"
  by (simp add: knowledge_set_def knowledge_get_def getProperty_def setProperty_def
        assignsOwn_def truthy_def emptyStore_def objectPrototypeNames_def spreadTags_def Let_def)

text \<open>
  Claim C10.  A \<open>set\<close> on an existing category and key without tags (absent or empty list)
  stores an entry with no \<open>tags\<close> field, whatever tags the old entry had: the new entry
  is the new data, the old \<open>createdAt\<close> and the clock as \<open>updatedAt\<close>; nothing else of
  the old entry survives.
\<close>

theorem set_replaces_tags:
  assumes "store category = Some cat" "cat key = Some old" "tags = None \<or> tags = Some []"
  shows "fst (knowledge_set now category key (Some d) tags store) =
           store(category \<mapsto> cat(key \<mapsto> \<lparr> k_data = d, k_createdAt = k_createdAt old,
                                            k_updatedAt = now, k_tags = None \<rparr>))"
  using assms
    set_updates_own [where store = store and category = category and c = cat and key = key
      and e = old and now = now and d = d and tags = tags]
  by (auto simp: spreadTags_def)

theorem set_replaces_tags_witness:
  "taggedStore ''contacts'' =
     Some [''sean'' \<mapsto> \<lparr> k_data = JStr ''Sean'', k_createdAt = 10, k_updatedAt = 10,
                         k_tags = Some [''client''] \<rparr>] \<and>
   knowledge_get ''contacts'' ''sean''
     (fst (knowledge_set 20 ''contacts'' ''sean'' (Some (JStr ''S. Durkan'')) None taggedStore)) =
     KOk ''contacts'' ''sean'' (JStr ''S. Durkan'') 10 20 None"
proof -
  have a: "taggedStore ''contacts'' =
     Some [''sean'' \<mapsto> \<lparr> k_data = JStr ''Sean'', k_createdAt = 10, k_updatedAt = 10,
                         k_tags = Some [''client''] \<rparr>]"
    by (simp add: taggedStore_def)
  have b: "[''sean'' \<mapsto> \<lparr> k_data = JStr ''Sean'', k_createdAt = 10, k_updatedAt = 10,
                         k_tags = Some [''client''] \<rparr>] ''sean'' =
           Some \<lparr> k_data = JStr ''Sean'', k_createdAt = 10, k_updatedAt = 10,
                         k_tags = Some [''client''] \<rparr>"
    by simp
  have c: "(None :: string list option) = None \<or> None = Some []" by simp
  show ?thesis
    using a set_replaces_tags [where store = taggedStore and category = "''contacts''"
        and key = "''sean''" and tags = None and now = 20 and d = "JStr ''S. Durkan''", OF a b c]
    by (simp add: knowledge_get_def getProperty_def spreadTags_def)
qed

subsection \<open>Workflow: admission control\<close>

lemma execute_rejected_world:
  "validate pat steps \<noteq> None \<or> admission env pat steps \<noteq> None \<Longrightarrow>
   fst (execute env pat steps passContext label resume w) = w"
  by (auto simp: execute_def split: option.splits)

lemma validate_seqSteps: "validate Sequential seqSteps = None"
  by (simp add: validate_def seqSteps_def mkStep_def)

lemma validate_parSteps: "validate Parallel parSteps = None"
  by (simp add: validate_def parSteps_def mkStep_def)

lemma validate_dagSteps: "validate Dag dagSteps = None"
  by (simp add: validate_def dagSteps_def mkStep_def dependencies_def)

text \<open>
  Claim C8.  For a request that passed validation, \<open>execute\<close> answers \<open>forbidden\<close> and
  leaves the world as it was when the caller's depth is at least \<open>maxSpawnDepth\<close> (1 when
  not configured), and also when the pattern is parallel and there are more steps than
  \<open>maxChildrenPerAgent\<close> (5 when not configured).  A sequential or dag request below the
  depth limit is admitted whatever its number of steps.  Whether valid or not, a request
  at or above the depth limit is rejected before any step is called.
\<close>

theorem admission_control:
  "(validate pat steps = None \<and>
    e_callerDepth env \<ge> (case cfg_maxSpawnDepth (e_config env) of None \<Rightarrow> 1 | Some d \<Rightarrow> d) \<longrightarrow>
      execute env pat steps passContext label resume w =
        (w, Rejected (DepthExceeded (e_callerDepth env)
               (case cfg_maxSpawnDepth (e_config env) of None \<Rightarrow> 1 | Some d \<Rightarrow> d))) \<and>
      workflow_status (snd (execute env pat steps passContext label resume w)) = ''forbidden'') \<and>
   (validate pat steps = None \<and>
    e_callerDepth env < (case cfg_maxSpawnDepth (e_config env) of None \<Rightarrow> 1 | Some d \<Rightarrow> d) \<and>
    pat = Parallel \<and>
    int (length steps) > (case cfg_maxChildrenPerAgent (e_config env) of None \<Rightarrow> 5 | Some c \<Rightarrow> c) \<longrightarrow>
      execute env pat steps passContext label resume w =
        (w, Rejected (TooManyParallel (length steps)
               (case cfg_maxChildrenPerAgent (e_config env) of None \<Rightarrow> 5 | Some c \<Rightarrow> c))) \<and>
      workflow_status (snd (execute env pat steps passContext label resume w)) = ''forbidden'') \<and>
   (validate pat steps = None \<and>
    e_callerDepth env < (case cfg_maxSpawnDepth (e_config env) of None \<Rightarrow> 1 | Some d \<Rightarrow> d) \<and>
    (pat = Sequential \<or> pat = Dag) \<longrightarrow>
      admission env pat steps = None \<and>
      (\<exists>w' r. execute env pat steps passContext label resume w = (w', Summary r))) \<and>
   (e_callerDepth env \<ge> (case cfg_maxSpawnDepth (e_config env) of None \<Rightarrow> 1 | Some d \<Rightarrow> d) \<longrightarrow>
      (\<exists>e. execute env pat steps passContext label resume w = (w, Rejected e)) \<and>
      w_stepCalls (fst (execute env pat steps passContext label resume w)) = w_stepCalls w)"
proof (intro conjI impI)
  assume h: "validate pat steps = None \<and>
    e_callerDepth env \<ge> (case cfg_maxSpawnDepth (e_config env) of None \<Rightarrow> 1 | Some d \<Rightarrow> d)"
  then show "execute env pat steps passContext label resume w =
        (w, Rejected (DepthExceeded (e_callerDepth env)
               (case cfg_maxSpawnDepth (e_config env) of None \<Rightarrow> 1 | Some d \<Rightarrow> d)))"
    by (auto simp: execute_def admission_def Let_def)
  then show "workflow_status (snd (execute env pat steps passContext label resume w)) = ''forbidden''"
    by simp
next
  assume h: "validate pat steps = None \<and>
    e_callerDepth env < (case cfg_maxSpawnDepth (e_config env) of None \<Rightarrow> 1 | Some d \<Rightarrow> d) \<and>
    pat = Parallel \<and>
    int (length steps) > (case cfg_maxChildrenPerAgent (e_config env) of None \<Rightarrow> 5 | Some c \<Rightarrow> c)"
  then show "execute env pat steps passContext label resume w =
        (w, Rejected (TooManyParallel (length steps)
               (case cfg_maxChildrenPerAgent (e_config env) of None \<Rightarrow> 5 | Some c \<Rightarrow> c)))"
    by (auto simp: execute_def admission_def Let_def)
  then show "workflow_status (snd (execute env pat steps passContext label resume w)) = ''forbidden''"
    by simp
next
  assume h: "validate pat steps = None \<and>
    e_callerDepth env < (case cfg_maxSpawnDepth (e_config env) of None \<Rightarrow> 1 | Some d \<Rightarrow> d) \<and>
    (pat = Sequential \<or> pat = Dag)"
  then show adm: "admission env pat steps = None"
    by (auto simp: admission_def Let_def)
  show "\<exists>w' r. execute env pat steps passContext label resume w = (w', Summary r)"
    using h adm by (simp add: execute_def finish_def split: prod.splits)
next
  assume h: "e_callerDepth env \<ge> (case cfg_maxSpawnDepth (e_config env) of None \<Rightarrow> 1 | Some d \<Rightarrow> d)"
  then have adm: "admission env pat steps \<noteq> None"
    by (simp add: admission_def Let_def)
  then show "\<exists>e. execute env pat steps passContext label resume w = (w, Rejected e)"
    by (auto simp: execute_def split: option.splits)
  show "w_stepCalls (fst (execute env pat steps passContext label resume w)) = w_stepCalls w"
    using execute_rejected_world [of pat steps env] adm by simp
qed

theorem admission_control_witness:
  "validate Sequential seqSteps = None \<and>
   workflow_status (snd (execute (okEnv\<lparr>e_callerDepth := 1\<rparr>) Sequential seqSteps False None False
      emptyWorld)) = ''forbidden'' \<and>
   fst (execute (okEnv\<lparr>e_callerDepth := 1\<rparr>) Sequential seqSteps False None False emptyWorld) =
      emptyWorld \<and>
   validate Parallel parSteps = None \<and> length parSteps = 6 \<and>
   workflow_status (snd (execute okEnv Parallel parSteps False None False emptyWorld)) =
      ''forbidden'' \<and>
   validate Dag dagSteps = None \<and>
   (\<exists>w' r. execute okEnv Dag dagSteps False None False emptyWorld = (w', Summary r))"
proof -
  note a = admission_control [of Sequential seqSteps "okEnv\<lparr>e_callerDepth := 1\<rparr>" False None False emptyWorld]
  note b = admission_control [of Parallel parSteps okEnv False None False emptyWorld]
  note c = admission_control [of Dag dagSteps okEnv False None False emptyWorld]
  have a1: "workflow_status (snd (execute (okEnv\<lparr>e_callerDepth := 1\<rparr>) Sequential seqSteps False None False
      emptyWorld)) = ''forbidden''"
    and a2: "fst (execute (okEnv\<lparr>e_callerDepth := 1\<rparr>) Sequential seqSteps False None False emptyWorld) =
      emptyWorld"
    using conjunct1 [OF a] validate_seqSteps by (simp_all add: okEnv_def)
  have b1: "workflow_status (snd (execute okEnv Parallel parSteps False None False emptyWorld)) =
      ''forbidden''"
    using conjunct1 [OF conjunct2 [OF b]] validate_parSteps by (simp add: okEnv_def parSteps_def)
  have c1: "\<exists>w' r. execute okEnv Dag dagSteps False None False emptyWorld = (w', Summary r)"
    using conjunct1 [OF conjunct2 [OF conjunct2 [OF c]]] validate_dagSteps by (simp add: okEnv_def)
  show ?thesis
    using a1 a2 b1 c1 validate_seqSteps validate_parSteps validate_dagSteps
    by (simp add: parSteps_def)
qed

subsection \<open>Workflow: checkpoint lifecycle and result\<close>

lemma saveCheckpoint_result:
  "saveCheckpoint env path cp w = (w', cp') \<Longrightarrow>
     cp' = cp\<lparr>cp_updatedAt := e_now env\<rparr> \<and> w_files w' path = Some cp' \<and>
     w_stepCalls w' = w_stepCalls w"
  by (auto simp: saveCheckpoint_def Let_def)

lemma sequentialLoop_saved:
  "sequentialLoop env passContext path steps parts cp w = (w', cp') \<Longrightarrow>
     w_files w' path = Some cp' \<and> (cp_status cp' = WfDone \<or> cp_status cp' = WfFailed)"
proof (induction steps arbitrary: parts cp w)
  case Nil
  then show ?case by (auto simp: saveCheckpoint_def Let_def)
next
  case (Cons s rest)
  show ?case
  proof (cases "truthy (completedOf cp (s_name s))")
    case True
    then show ?thesis using Cons by simp
  next
    case False
    obtain w1 out where ex: "executeStep env s (if passContext then join (nl @ nl) parts else []) w = (w1, out)"
      by (cases "executeStep env s (if passContext then join (nl @ nl) parts else []) w")
    show ?thesis
    proof (cases out)
      case (Inl msg)
      then show ?thesis using Cons.prems False ex
        by (auto simp: Let_def saveCheckpoint_def)
    next
      case (Inr r)
      obtain w2 cp2 where sv: "saveCheckpoint env path
          (cp\<lparr>cp_completed := fmSetProperty (cp_completed cp) (s_name s) r\<rparr>) w1 = (w2, cp2)"
        by (cases "saveCheckpoint env path
                     (cp\<lparr>cp_completed := fmSetProperty (cp_completed cp) (s_name s) r\<rparr>) w1")
      have "sequentialLoop env passContext path rest
              (parts @ [stepSection (s_name s) (cs_result r)]) cp2 w2 = (w', cp')"
        using Cons.prems False ex Inr sv by (simp add: Let_def)
      then show ?thesis by (rule Cons.IH)
    qed
  qed
qed

lemma saveCheckpoint_status:
  "saveCheckpoint env path cp w = (w', cp') \<Longrightarrow>
     w_files w' path = Some cp' \<and> cp_status cp' = cp_status cp"
  by (auto simp: saveCheckpoint_def Let_def)

lemma executeParallel_saved:
  assumes "executeParallel env steps cp path w = (w', cp')"
  shows "w_files w' path = Some cp' \<and> (cp_status cp' = WfDone \<or> cp_status cp' = WfFailed)"
proof -
  let ?pending = "filter (\<lambda>s. \<not> truthy (completedOf cp (s_name s))) steps"
  obtain w1 results where st: "settleAll env (map (\<lambda>s. (s, [])) ?pending) w = (w1, results)"
    by (cases "settleAll env (map (\<lambda>s. (s, [])) ?pending) w")
  let ?cp1 = "recordOutcomes (zip (map s_name ?pending) results) cp"
  have "saveCheckpoint env path
          (?cp1\<lparr>cp_status := (if card (fmdom' (cp_failed ?cp1)) > 0 then WfFailed else WfDone)\<rparr>) w1
        = (w', cp')"
    using assms st by (simp add: executeParallel_def Let_def)
  from saveCheckpoint_status [OF this] show ?thesis by (simp split: if_splits)
qed

lemma executeDag_saved:
  assumes "executeDag env steps passContext cp path w = (w', cp', rounds)"
  shows "w_files w' path = Some cp' \<and> (cp_status cp' = WfDone \<or> cp_status cp' = WfFailed)"
proof -
  obtain w1 cp1 r1 where lp: "dagLoop env passContext path steps (length steps) 0 cp w = (w1, cp1, r1)"
    by (cases "dagLoop env passContext path steps (length steps) 0 cp w")
  let ?st = "if card (fmdom' (cp_completed cp1)) + card (fmdom' (cp_failed cp1)) = length steps
             then (if card (fmdom' (cp_failed cp1)) > 0 then WfFailed else WfDone) else WfFailed"
  obtain w2 cp2 where sv: "saveCheckpoint env path (cp1\<lparr>cp_status := ?st\<rparr>) w1 = (w2, cp2)"
    by (cases "saveCheckpoint env path (cp1\<lparr>cp_status := ?st\<rparr>) w1")
  have "w' = w2" "cp' = cp2"
    using assms lp sv by (simp_all add: executeDag_def Let_def)
  with saveCheckpoint_status [OF sv] show ?thesis by (simp split: if_splits)
qed

lemma runPattern_saved:
  assumes "runPattern env pat steps passContext cp path w = (w', cp')"
  shows "w_files w' path = Some cp' \<and> (cp_status cp' = WfDone \<or> cp_status cp' = WfFailed)"
proof (cases pat)
  case Sequential
  then have "sequentialLoop env passContext path steps (restoreContext steps cp) cp w = (w', cp')"
    using assms by (simp add: runPattern_def executeSequential_def)
  then show ?thesis by (rule sequentialLoop_saved)
next
  case Parallel
  then have "executeParallel env steps cp path w = (w', cp')"
    using assms by (simp add: runPattern_def)
  then show ?thesis by (rule executeParallel_saved)
next
  case Dag
  obtain w1 cp1 r1 where d: "executeDag env steps passContext cp path w = (w1, cp1, r1)"
    by (cases "executeDag env steps passContext cp path w")
  then have "w' = w1" "cp' = cp1" using assms Dag by (simp_all add: runPattern_def)
  with executeDag_saved [OF d] show ?thesis by simp
qed

lemma runAdmitted_saved:
  assumes "runAdmitted env pat steps passContext label resume w = (w', cp')"
  shows "w_files w' (checkpointPathOf env (workflowIdOf env label)) = Some cp' \<and>
         (cp_status cp' = WfDone \<or> cp_status cp' = WfFailed)"
proof -
  let ?path = "checkpointPathOf env (workflowIdOf env label)"
  obtain w1 cp1 where sv: "saveCheckpoint env ?path
      (initCheckpoint env resume (workflowIdOf env label) pat ?path steps w) w = (w1, cp1)"
    by (cases "saveCheckpoint env ?path (initCheckpoint env resume (workflowIdOf env label) pat ?path steps w) w")
  have "runPattern env pat steps passContext cp1 ?path w1 = (w', cp')"
    using assms sv by (simp add: runAdmitted_def Let_def)
  then show ?thesis by (rule runPattern_saved)
qed

lemma fmdom'_empty_iff: "fmdom' m = {} \<longleftrightarrow> m = fmempty"
proof
  assume e: "fmdom' m = {}"
  show "m = fmempty"
  proof (rule fmap_ext)
    fix x
    have "x \<notin> fmdom' m" using e by simp
    then show "fmlookup m x = fmlookup fmempty x" by (simp add: fmdom'_notD)
  qed
next
  assume "m = fmempty"
  then show "fmdom' m = {}" by simp
qed

lemma card_fmdom'_pos: "0 < card (fmdom' m) \<longleftrightarrow> m \<noteq> fmempty"
  by (simp add: card_gt_0_iff fmdom'_empty_iff)

lemma short_not_inherited: "length name < 7 \<Longrightarrow> name \<notin> set objectPrototypeNames"
  by (auto simp: objectPrototypeNames_def)

lemma short_getProperty:
  "length name < 7 \<Longrightarrow>
   getProperty own name = (case own of Some v \<Rightarrow> Own v | None \<Rightarrow> Missing)"
  by (simp add: getProperty_def short_not_inherited)

lemma short_fmSetProperty: "length name < 7 \<Longrightarrow> fmSetProperty m name v = fmupd name v m"
  by (auto simp: fmSetProperty_def assignsOwn_def)

lemma seq_run_done:
  "cp_status (snd (runAdmitted okEnv Sequential seqSteps True (Some ''demo'') False emptyWorld)) = WfDone \<and>
   cp_failed (snd (runAdmitted okEnv Sequential seqSteps True (Some ''demo'') False emptyWorld)) = fmempty"
  by (simp add: okEnv_def seqSteps_def mkStep_def emptyWorld_def
      runAdmitted_def runPattern_def executeSequential_def restoreContext_def
      completedOf_def failedOf_def short_getProperty truthy_def short_fmSetProperty
      initCheckpoint_def saveCheckpoint_def executeStep_def Let_def)

lemma dag_run_failed:
  "cp_status (snd (runAdmitted failAEnv Dag dagSteps True (Some ''demo'') False emptyWorld)) = WfFailed \<and>
   cp_failed (snd (runAdmitted failAEnv Dag dagSteps True (Some ''demo'') False emptyWorld)) =
     fmupd ''A'' ''boom'' fmempty"
  by (simp add: failAEnv_def okEnv_def dagSteps_def mkStep_def emptyWorld_def
      runAdmitted_def runPattern_def executeDag_def isReady_def dependencies_def
      dependencyContext_def
      completedOf_def failedOf_def short_getProperty truthy_def short_fmSetProperty
      initCheckpoint_def saveCheckpoint_def executeStep_def Let_def)

lemma admission_seq: "admission okEnv Sequential seqSteps = None"
  by (simp add: admission_def okEnv_def Let_def)

lemma admission_dagA: "admission failAEnv Dag dagSteps = None"
  by (simp add: admission_def failAEnv_def okEnv_def Let_def)

text \<open>
  Claim C9.  An admitted request runs its executor to a checkpoint whose status is done
  or failed, and the result is the summary of that checkpoint.  If the status is done, the
  checkpoint file is gone and the summary has no \<open>checkpoint\<close> field; otherwise the file
  holds the final checkpoint and the summary carries its path.  The \<open>failures\<close> field is
  the \<open>failed\<close> map when that map is non-empty and absent when it is empty.
\<close>

theorem result_shape:
  assumes "validate pat steps = None" and "admission env pat steps = None"
  shows "\<exists>w2 cp w' r.
           runAdmitted env pat steps passContext label resume w = (w2, cp) \<and>
           execute env pat steps passContext label resume w = (w', Summary r) \<and>
           (cp_status cp = WfDone \<or> cp_status cp = WfFailed) \<and>
           r_status r = cp_status cp \<and>
           (cp_status cp = WfDone \<longrightarrow>
              w_files w' (checkpointPathOf env (workflowIdOf env label)) = None \<and>
              r_checkpoint r = None) \<and>
           (cp_status cp \<noteq> WfDone \<longrightarrow>
              w_files w' (checkpointPathOf env (workflowIdOf env label)) = Some cp \<and>
              r_checkpoint r = Some (checkpointPathOf env (workflowIdOf env label))) \<and>
           (cp_failed cp \<noteq> fmempty \<longrightarrow> r_failures r = Some (cp_failed cp)) \<and>
           (cp_failed cp = fmempty \<longrightarrow> r_failures r = None)"
proof -
  obtain w2 cp where run: "runAdmitted env pat steps passContext label resume w = (w2, cp)"
    by (cases "runAdmitted env pat steps passContext label resume w")
  note sv = runAdmitted_saved [OF run]
  let ?path = "checkpointPathOf env (workflowIdOf env label)"
  let ?w' = "if cp_status cp = WfDone then unlink ?path w2 else w2"
  let ?r = "\<lparr> r_status = cp_status cp, r_pattern = pat,
              r_stepsCompleted = card (fmdom' (cp_completed cp)),
              r_stepsFailed = card (fmdom' (cp_failed cp)),
              r_totalSteps = length steps,
              r_totalDurationMs = totalDuration (cp_completed cp),
              r_failures = (if card (fmdom' (cp_failed cp)) > 0 then Some (cp_failed cp) else None),
              r_checkpoint = (if cp_status cp \<noteq> WfDone then Some ?path else None) \<rparr>"
  have ex: "execute env pat steps passContext label resume w = (?w', Summary ?r)"
    using assms run by (simp add: execute_def finish_def)
  have f1: "cp_status cp = WfDone \<longrightarrow> w_files ?w' ?path = None"
    by (simp add: unlink_def)
  have f2: "cp_status cp \<noteq> WfDone \<longrightarrow> w_files ?w' ?path = Some cp"
    using sv by simp
  have f3: "cp_failed cp \<noteq> fmempty \<longrightarrow> r_failures ?r = Some (cp_failed cp)"
    by (simp add: card_fmdom'_pos)
  have f4: "cp_failed cp = fmempty \<longrightarrow> r_failures ?r = None"
    by simp
  show ?thesis
    apply (rule exI [of _ w2], rule exI [of _ cp], rule exI [of _ ?w'], rule exI [of _ ?r])
    using run ex sv f1 f2 f3 f4 by simp
qed


theorem result_shape_witness:
  "validate Sequential seqSteps = None \<and> admission okEnv Sequential seqSteps = None \<and>
   (\<exists>w' r. execute okEnv Sequential seqSteps True (Some ''demo'') False emptyWorld = (w', Summary r) \<and>
      r_status r = WfDone \<and> w_files w' ''/ws/checkpoints/workflow-demo.json'' = None \<and>
      r_checkpoint r = None \<and> r_failures r = None) \<and>
   validate Dag dagSteps = None \<and> admission failAEnv Dag dagSteps = None \<and>
   (\<exists>w' r. execute failAEnv Dag dagSteps True (Some ''demo'') False emptyWorld = (w', Summary r) \<and>
      r_status r = WfFailed \<and> w_files w' ''/ws/checkpoints/workflow-demo.json'' \<noteq> None \<and>
      r_checkpoint r = Some ''/ws/checkpoints/workflow-demo.json'' \<and>
      r_failures r = Some (fmupd ''A'' ''boom'' fmempty))"
proof -
  have p1: "checkpointPathOf okEnv (workflowIdOf okEnv (Some ''demo'')) = ''/ws/checkpoints/workflow-demo.json''"
    by (simp add: checkpointPathOf_def workflowIdOf_def okEnv_def safe_def safeChar_def)
  have p2: "checkpointPathOf failAEnv (workflowIdOf failAEnv (Some ''demo'')) = ''/ws/checkpoints/workflow-demo.json''"
    by (simp add: checkpointPathOf_def workflowIdOf_def failAEnv_def okEnv_def safe_def safeChar_def)
  from result_shape [OF validate_seqSteps admission_seq, of True "Some ''demo''" False emptyWorld]
  obtain w2 cp w' r where
    a: "runAdmitted okEnv Sequential seqSteps True (Some ''demo'') False emptyWorld = (w2, cp)"
    and b: "execute okEnv Sequential seqSteps True (Some ''demo'') False emptyWorld = (w', Summary r)"
    and c: "r_status r = cp_status cp"
      "cp_status cp = WfDone \<longrightarrow>
              w_files w' (checkpointPathOf okEnv (workflowIdOf okEnv (Some ''demo''))) = None \<and>
              r_checkpoint r = None"
      "cp_failed cp = fmempty \<longrightarrow> r_failures r = None"
    by blast
  have "cp_status cp = WfDone" "cp_failed cp = fmempty" using seq_run_done a by simp_all
  then have one: "\<exists>w' r. execute okEnv Sequential seqSteps True (Some ''demo'') False emptyWorld = (w', Summary r) \<and>
      r_status r = WfDone \<and> w_files w' ''/ws/checkpoints/workflow-demo.json'' = None \<and>
      r_checkpoint r = None \<and> r_failures r = None"
    using b c p1 by simp
  from result_shape [OF validate_dagSteps admission_dagA, of True "Some ''demo''" False emptyWorld]
  obtain v2 dp v' q where
    a': "runAdmitted failAEnv Dag dagSteps True (Some ''demo'') False emptyWorld = (v2, dp)"
    and b': "execute failAEnv Dag dagSteps True (Some ''demo'') False emptyWorld = (v', Summary q)"
    and c': "r_status q = cp_status dp"
      "cp_status dp \<noteq> WfDone \<longrightarrow>
              w_files v' (checkpointPathOf failAEnv (workflowIdOf failAEnv (Some ''demo''))) = Some dp \<and>
              r_checkpoint q = Some (checkpointPathOf failAEnv (workflowIdOf failAEnv (Some ''demo'')))"
      "cp_failed dp \<noteq> fmempty \<longrightarrow> r_failures q = Some (cp_failed dp)"
    by blast
  have d: "cp_status dp = WfFailed" "cp_failed dp = fmupd ''A'' ''boom'' fmempty"
    using dag_run_failed a' by simp_all
  have ne: "fmupd ''A'' ''boom'' fmempty \<noteq> (fmempty :: (string, string) fmap)"
    by (metis fmdom'_empty fmdom'_fmupd insert_not_empty)
  have two: "\<exists>w' r. execute failAEnv Dag dagSteps True (Some ''demo'') False emptyWorld = (w', Summary r) \<and>
      r_status r = WfFailed \<and> w_files w' ''/ws/checkpoints/workflow-demo.json'' \<noteq> None \<and>
      r_checkpoint r = Some ''/ws/checkpoints/workflow-demo.json'' \<and>
      r_failures r = Some (fmupd ''A'' ''boom'' fmempty)"
    using b' c' d p2 ne by simp
  show ?thesis
    using one two validate_seqSteps admission_seq validate_dagSteps admission_dagA by blast
qed

subsection \<open>Workflow: the DAG executor\<close>

text \<open>Validation leaves only requests whose step names are pairwise distinct.\<close>

lemma duplicateName_distinct:
  "duplicateName seen steps = None \<Longrightarrow>
     distinct (map s_name steps) \<and> set (map s_name steps) \<inter> seen = {}"
proof (induction steps arbitrary: seen)
  case Nil
  then show ?case by simp
next
  case (Cons s rest)
  have notin: "s_name s \<notin> seen" using Cons.prems by (auto split: if_splits)
  then have "duplicateName (insert (s_name s) seen) rest = None" using Cons.prems by simp
  from Cons.IH [OF this] notin show ?case by auto
qed

lemma validate_distinct: "validate pat steps = None \<Longrightarrow> distinct (map s_name steps)"
  using duplicateName_distinct [of "{}" steps]
  by (auto simp: validate_def split: if_splits option.splits)

lemma settleAll_length:
  "settleAll env xs w = (w', rs) \<Longrightarrow> length rs = length xs"
proof (induction xs arbitrary: w w' rs)
  case Nil
  then show ?case by simp
next
  case (Cons x xs)
  obtain s ctx where x: "x = (s, ctx)" by (cases x)
  obtain w1 r where e: "executeStep env s ctx w = (w1, r)" by (cases "executeStep env s ctx w")
  obtain w2 rs2 where st: "settleAll env xs w1 = (w2, rs2)" by (cases "settleAll env xs w1")
  have "rs = r # rs2" using Cons.prems x e st by simp
  moreover have "length rs2 = length xs" using Cons.IH [OF st] .
  ultimately show ?case by simp
qed

lemma fmSetProperty_dom: "fmdom' (fmSetProperty m name v) \<subseteq> insert name (fmdom' m)"
  by (auto simp: fmSetProperty_def)

lemma fmSetProperty_truthy:
  "truthy (getProperty (fmlookup (fmSetProperty m name v) n) n) \<longleftrightarrow>
     n = name \<or> truthy (getProperty (fmlookup m n) n)"
proof (cases "assignsOwn (fmlookup m name) name")
  case True
  then show ?thesis
    by (simp add: fmSetProperty_def getProperty_def truthy_def)
next
  case False
  then have own: "fmlookup m name = None" and nm: "name = ''__proto__''"
    by (auto simp: assignsOwn_def)
  have "truthy (getProperty (fmlookup m name) name)"
    using own nm proto_in_names by (simp add: getProperty_def truthy_def)
  then show ?thesis using False by (auto simp: fmSetProperty_def)
qed

lemma processed_completed:
  "processed (cp\<lparr>cp_completed := fmSetProperty (cp_completed cp) name v\<rparr>) =
     insert name (processed cp)"
  by (auto simp: processed_def completedOf_def failedOf_def fmSetProperty_truthy)

lemma processed_failed:
  "processed (cp\<lparr>cp_failed := fmSetProperty (cp_failed cp) name v\<rparr>) =
     insert name (processed cp)"
  by (auto simp: processed_def completedOf_def failedOf_def fmSetProperty_truthy)

lemma recordOutcomes_completed:
  "fmdom' (cp_completed (recordOutcomes outs cp)) \<subseteq> fmdom' (cp_completed cp) \<union> fst ` set outs"
proof (induction outs arbitrary: cp)
  case Nil
  then show ?case by simp
next
  case (Cons out outs)
  obtain n r where o: "out = (n, r)" by (cases out)
  show ?case
  proof (cases r)
    case (Inl e)
    then show ?thesis
      using Cons.IH [of "cp\<lparr>cp_failed := fmSetProperty (cp_failed cp) n e\<rparr>"] o by auto
  next
    case (Inr c)
    then show ?thesis
      using Cons.IH [of "cp\<lparr>cp_completed := fmSetProperty (cp_completed cp) n c\<rparr>"] o
        fmSetProperty_dom [of "cp_completed cp" n c]
      by auto
  qed
qed

lemma recordOutcomes_processed:
  "processed (recordOutcomes outs cp) = processed cp \<union> fst ` set outs"
proof (induction outs arbitrary: cp)
  case Nil
  then show ?case by simp
next
  case (Cons out outs)
  obtain n r where o: "out = (n, r)" by (cases out)
  show ?case
  proof (cases r)
    case (Inl e)
    then show ?thesis
      using Cons.IH [of "cp\<lparr>cp_failed := fmSetProperty (cp_failed cp) n e\<rparr>"] o
      by (simp add: processed_failed)
  next
    case (Inr c)
    then show ?thesis
      using Cons.IH [of "cp\<lparr>cp_completed := fmSetProperty (cp_completed cp) n c\<rparr>"] o
      by (simp add: processed_completed)
  qed
qed

lemma fst_set_zip: "length xs = length ys \<Longrightarrow> fst ` set (zip xs ys) = set xs"
  by (induction xs ys rule: list_induct2) auto

lemma isReady_unprocessed: "isReady cp s \<Longrightarrow> s_name s \<notin> processed cp"
  by (auto simp: isReady_def processed_def split: if_splits)

lemma processed_all_not_ready:
  "set (map s_name steps) \<subseteq> processed cp \<Longrightarrow> filter (isReady cp) steps = []"
  using isReady_unprocessed by (fastforce simp: filter_empty_conv)

text \<open>One scheduling round.\<close>

lemma processed_stamp: "processed (cp\<lparr>cp_updatedAt := t\<rparr>) = processed cp"
  by (simp add: processed_def completedOf_def failedOf_def)

lemma dag_round:
  assumes st: "settleAll env (map (\<lambda>s. (s, dependencyContext passContext cp s)) ready) w = (w1, results)"
    and sv: "saveCheckpoint env path (recordOutcomes (zip (map s_name ready) results) cp) w1 = (w2, cp2)"
  shows "processed cp2 = processed cp \<union> s_name ` set ready"
    and "fmdom' (cp_completed cp2) \<subseteq> fmdom' (cp_completed cp) \<union> s_name ` set ready"
proof -
  have len: "length (map s_name ready) = length results"
    using settleAll_length [OF st] by simp
  have cp2: "cp2 = (recordOutcomes (zip (map s_name ready) results) cp)\<lparr>cp_updatedAt := e_now env\<rparr>"
    using sv by (auto simp: saveCheckpoint_def Let_def)
  show "processed cp2 = processed cp \<union> s_name ` set ready"
    using recordOutcomes_processed [of "zip (map s_name ready) results" cp] fst_set_zip [OF len]
    by (simp add: cp2 processed_stamp)
  show "fmdom' (cp_completed cp2) \<subseteq> fmdom' (cp_completed cp) \<union> s_name ` set ready"
    using recordOutcomes_completed [of "zip (map s_name ready) results" cp] fst_set_zip [OF len]
    by (simp add: cp2)
qed

lemma dagLoop_rounds:
  "dagLoop env passContext path steps maxIterations iter cp w = (w', cp', rounds) \<Longrightarrow>
   iter \<le> maxIterations \<Longrightarrow> iter \<le> rounds \<and> rounds \<le> maxIterations"
proof (induction env passContext path steps maxIterations iter cp w rule: dagLoop.induct)
  case (1 env passContext path steps maxIterations iter cp w)
  show ?case
  proof (cases "iter < maxIterations")
    case False
    then show ?thesis using "1.prems" by simp
  next
    case lt: True
    let ?ready = "filter (isReady cp) steps"
    show ?thesis
    proof (cases "?ready = []")
      case True
      then show ?thesis using "1.prems" lt by simp
    next
      case False
      obtain w1 results where st:
        "settleAll env (map (\<lambda>s. (s, dependencyContext passContext cp s)) ?ready) w = (w1, results)"
        by (cases "settleAll env (map (\<lambda>s. (s, dependencyContext passContext cp s)) ?ready) w")
      obtain w2 cp2 where sv:
        "saveCheckpoint env path (recordOutcomes (zip (map s_name ?ready) results) cp) w1 = (w2, cp2)"
        by (cases "saveCheckpoint env path (recordOutcomes (zip (map s_name ?ready) results) cp) w1")
      have rec: "dagLoop env passContext path steps maxIterations (Suc iter) cp2 w2 = (w', cp', rounds)"
        using "1.prems"(1) lt False st sv by (simp add: Let_def)
      have "Suc iter \<le> rounds \<and> rounds \<le> maxIterations"
        using "1.IH" [OF lt refl False st [symmetric] sv [symmetric] rec] lt by simp
      then show ?thesis by simp
    qed
  qed
qed


lemma dagLoop_exit:
  "dagLoop env passContext path steps maxIterations iter cp w = (w', cp', rounds) \<Longrightarrow>
   fmdom' (cp_completed cp) \<subseteq> set (map s_name steps) \<Longrightarrow>
   card (set (map s_name steps) - processed cp) + iter \<le> maxIterations \<Longrightarrow>
   fmdom' (cp_completed cp') \<subseteq> set (map s_name steps) \<and> filter (isReady cp') steps = []"
proof (induction env passContext path steps maxIterations iter cp w rule: dagLoop.induct)
  case (1 env passContext path steps maxIterations iter cp w)
  let ?names = "set (map s_name steps)"
  let ?U = "?names - processed cp"
  have finU: "finite ?U" by simp
  show ?case
  proof (cases "iter < maxIterations")
    case False
    then have same: "cp' = cp" using "1.prems"(1) by simp
    have "card ?U = 0" using False "1.prems"(3) by linarith
    then have "?U = {}" using finU card_0_eq by blast
    then have "?names \<subseteq> processed cp" by blast
    then have "filter (isReady cp) steps = []" by (rule processed_all_not_ready)
    then show ?thesis using same "1.prems"(2) by simp
  next
    case lt: True
    let ?ready = "filter (isReady cp) steps"
    show ?thesis
    proof (cases "?ready = []")
      case True
      then have "cp' = cp" using "1.prems"(1) lt by simp
      then show ?thesis using True "1.prems"(2) by simp
    next
      case False
      obtain w1 results where st:
        "settleAll env (map (\<lambda>s. (s, dependencyContext passContext cp s)) ?ready) w = (w1, results)"
        by (cases "settleAll env (map (\<lambda>s. (s, dependencyContext passContext cp s)) ?ready) w")
      obtain w2 cp2 where sv:
        "saveCheckpoint env path (recordOutcomes (zip (map s_name ?ready) results) cp) w1 = (w2, cp2)"
        by (cases "saveCheckpoint env path (recordOutcomes (zip (map s_name ?ready) results) cp) w1")
      have rec: "dagLoop env passContext path steps maxIterations (Suc iter) cp2 w2 = (w', cp', rounds)"
        using "1.prems"(1) lt False st sv by (simp add: Let_def)
      note rd = dag_round [OF st sv]
      have sub: "s_name ` set ?ready \<subseteq> ?names" by auto
      have c2: "fmdom' (cp_completed cp2) \<subseteq> ?names"
        using rd(2) sub "1.prems"(2) by blast
      obtain s where s: "s \<in> set ?ready" using False by (cases ?ready) auto
      then have "s_name s \<in> ?U" using isReady_unprocessed [of cp s] by auto
      moreover have "s_name s \<notin> ?names - processed cp2" using s rd(1) by blast
      moreover have "?names - processed cp2 \<subseteq> ?U" using rd(1) by blast
      ultimately have "?names - processed cp2 \<subset> ?U" by blast
      then have "card (?names - processed cp2) < card ?U"
        using finU by (rule psubset_card_mono [rotated])
      then have m2: "card (?names - processed cp2) + Suc iter \<le> maxIterations"
        using "1.prems"(3) by simp
      show ?thesis
        by (rule "1.IH" [OF lt refl False st [symmetric] sv [symmetric] rec c2 m2])
    qed
  qed
qed

lemma isReady_cong:
  "cp_completed a = cp_completed b \<Longrightarrow> cp_failed a = cp_failed b \<Longrightarrow> isReady a = isReady b"
  by (rule ext) (simp add: isReady_def completedOf_def failedOf_def)

text \<open>
  Where the status test of \<open>executeDag\<close> is right: for steps with distinct names (which
  validation ensures) and a checkpoint whose completed keys are step names (a fresh
  checkpoint has none), the executor returns after at most \<open>length steps\<close> scheduling
  rounds with no step left ready, and the final status is done if and only if every step
  name is a key of \<open>completed\<close> and \<open>failed\<close> is empty, and failed otherwise.
\<close>

lemma executeDag_outcome_known:
  assumes names: "distinct (map s_name steps)"
    and known: "fmdom' (cp_completed cp) \<subseteq> set (map s_name steps)"
  shows "\<exists>w' cp' rounds.
           executeDag env steps passContext cp path w = (w', cp', rounds) \<and>
           rounds \<le> length steps \<and>
           filter (isReady cp') steps = [] \<and>
           (cp_status cp' = WfDone \<longleftrightarrow>
              set (map s_name steps) \<subseteq> fmdom' (cp_completed cp') \<and> cp_failed cp' = fmempty) \<and>
           (cp_status cp' \<noteq> WfDone \<longrightarrow> cp_status cp' = WfFailed)"
proof -
  obtain w1 cp1 rounds where lp:
    "dagLoop env passContext path steps (length steps) 0 cp w = (w1, cp1, rounds)"
    by (cases "dagLoop env passContext path steps (length steps) 0 cp w")
  let ?names = "set (map s_name steps)"
  let ?st = "if card (fmdom' (cp_completed cp1)) + card (fmdom' (cp_failed cp1)) = length steps
             then (if card (fmdom' (cp_failed cp1)) > 0 then WfFailed else WfDone) else WfFailed"
  let ?cp' = "cp1\<lparr>cp_status := ?st, cp_updatedAt := e_now env\<rparr>"
  let ?w' = "w1\<lparr>w_files := (w_files w1)(path \<mapsto> ?cp')\<rparr>"
  have ex: "executeDag env steps passContext cp path w = (?w', ?cp', rounds)"
    using lp by (simp add: executeDag_def saveCheckpoint_def Let_def)
  have r: "rounds \<le> length steps" using dagLoop_rounds [OF lp] by simp
  have "card (?names - processed cp) \<le> card ?names" by (simp add: card_mono)
  also have "\<dots> \<le> length steps" using card_length [of "map s_name steps"] by simp
  finally have m: "card (?names - processed cp) + 0 \<le> length steps" by simp
  note e = dagLoop_exit [OF lp known m]
  have nr: "filter (isReady ?cp') steps = []"
    using e isReady_cong [of ?cp' cp1] by simp
  have cn: "card ?names = length steps" using names distinct_card [of "map s_name steps"] by simp
  have sub: "fmdom' (cp_completed cp1) \<subseteq> ?names" using e by simp
  have eq: "card (fmdom' (cp_completed cp1)) = length steps \<longleftrightarrow> ?names \<subseteq> fmdom' (cp_completed cp1)"
  proof
    assume "card (fmdom' (cp_completed cp1)) = length steps"
    then have "fmdom' (cp_completed cp1) = ?names"
      using sub cn card_subset_eq [of ?names "fmdom' (cp_completed cp1)"] by simp
    then show "?names \<subseteq> fmdom' (cp_completed cp1)" by simp
  next
    assume "?names \<subseteq> fmdom' (cp_completed cp1)"
    then have "fmdom' (cp_completed cp1) = ?names" using sub by blast
    then show "card (fmdom' (cp_completed cp1)) = length steps" using cn by simp
  qed
  have f0: "card (fmdom' (cp_failed cp1)) = 0 \<longleftrightarrow> cp_failed cp1 = fmempty"
    by (simp add: fmdom'_empty_iff)
  have st: "?st = WfDone \<longleftrightarrow> ?names \<subseteq> fmdom' (cp_completed cp1) \<and> cp_failed cp1 = fmempty"
    using eq f0 by auto
  have st2: "?st \<noteq> WfDone \<longrightarrow> ?st = WfFailed" by simp
  show ?thesis
    apply (rule exI [of _ ?w'], rule exI [of _ ?cp'], rule exI [of _ rounds])
    using ex r nr st st2 by simp
qed

lemma afterStuckRun_file:
  "w_files afterStuckRun ''/ws/checkpoints/workflow-demo.json'' =
     Some \<lparr> cp_workflowId = ''demo'', cp_pattern = Dag, cp_steps = [''a,b'', ''c''],
            cp_completed = fmupd ''a,b'' \<lparr> cs_result = ''a,b-ok'', cs_durationMs = 5 \<rparr> fmempty,
            cp_failed = fmempty, cp_status = WfFailed, cp_startedAt = 1000,
            cp_updatedAt = 1000 \<rparr>"
  by (simp add: afterStuckRun_def okEnv_def stuckSteps_def mkStep_def emptyWorld_def
      execute_def validate_def admission_def finish_def checkpointPathOf_def workflowIdOf_def
      safe_def safeChar_def runAdmitted_def runPattern_def executeDag_def isReady_def
      dependencies_def dependencyContext_def
      completedOf_def failedOf_def short_getProperty truthy_def short_fmSetProperty
      initCheckpoint_def saveCheckpoint_def executeStep_def Let_def)

lemma resumed_checkpoint:
  "snd (runAdmitted okEnv Dag resumedSteps False (Some ''demo'') True afterStuckRun) =
     \<lparr> cp_workflowId = ''demo'', cp_pattern = Dag, cp_steps = [''a,b'', ''c''],
       cp_completed = fmupd ''a'' \<lparr> cs_result = ''a-ok'', cs_durationMs = 5 \<rparr>
                        (fmupd ''a,b'' \<lparr> cs_result = ''a,b-ok'', cs_durationMs = 5 \<rparr> fmempty),
       cp_failed = fmempty, cp_status = WfDone, cp_startedAt = 1000, cp_updatedAt = 1000 \<rparr>"
  by (simp add: afterStuckRun_file okEnv_def resumedSteps_def mkStep_def
      checkpointPathOf_def workflowIdOf_def loadCheckpoint_def
      safe_def safeChar_def runAdmitted_def runPattern_def executeDag_def isReady_def
      dependencies_def dependencyContext_def
      completedOf_def failedOf_def short_getProperty truthy_def short_fmSetProperty
      initCheckpoint_def saveCheckpoint_def executeStep_def Let_def)

lemma resumed_calls:
  "map (\<lambda>c. s_name (fst c))
     (w_stepCalls (fst (runAdmitted okEnv Dag resumedSteps False (Some ''demo'') True afterStuckRun))) =
   map (\<lambda>c. s_name (fst c)) (w_stepCalls afterStuckRun) @ [''a'']"
  by (simp add: afterStuckRun_file okEnv_def resumedSteps_def mkStep_def
      checkpointPathOf_def workflowIdOf_def loadCheckpoint_def
      safe_def safeChar_def runAdmitted_def runPattern_def executeDag_def isReady_def
      dependencies_def dependencyContext_def
      completedOf_def failedOf_def short_getProperty truthy_def short_fmSetProperty
      initCheckpoint_def saveCheckpoint_def executeStep_def Let_def)

text \<open>
  Claim C5.  The claim fails on a resumed run that adopts the checkpoint of another
  workflow: the checkpoint that the request \<open>a,b\<close>, \<open>c\<close> leaves behind (\<open>a,b\<close> completed,
  \<open>c\<close> stuck) is adopted by the request \<open>a\<close>, \<open>b,c\<close>, whose names join to the same
  text.  Only \<open>a\<close> runs; \<open>completed\<close> then has two keys for two steps, and the executor
  reports done although the step \<open>b,c\<close> is not in \<open>completed\<close>; the run makes one
  step call, the one for \<open>a\<close>.
\<close>

theorem dag_done_with_step_never_run:
  "validate Dag resumedSteps = None \<and>
   map s_name resumedSteps = [''a'', ''b,c''] \<and>
   cp_status (snd (runAdmitted okEnv Dag resumedSteps False (Some ''demo'') True afterStuckRun)) =
     WfDone \<and>
   fmlookup (cp_completed
       (snd (runAdmitted okEnv Dag resumedSteps False (Some ''demo'') True afterStuckRun)))
     ''b,c'' = None \<and>
   cp_failed (snd (runAdmitted okEnv Dag resumedSteps False (Some ''demo'') True afterStuckRun)) =
     fmempty \<and>
   workflow_status (snd (execute okEnv Dag resumedSteps False (Some ''demo'') True afterStuckRun)) =
     ''done'' \<and>
   length (w_stepCalls
      (fst (runAdmitted okEnv Dag resumedSteps False (Some ''demo'') True afterStuckRun))) =
     length (w_stepCalls afterStuckRun) + 1"
proof -
  have v: "validate Dag resumedSteps = None"
    by (simp add: validate_def resumedSteps_def mkStep_def dependencies_def)
  have a: "admission okEnv Dag resumedSteps = None"
    by (simp add: admission_def okEnv_def Let_def)
  have n: "map s_name resumedSteps = [''a'', ''b,c'']"
    by (simp add: resumedSteps_def mkStep_def)
  have s: "workflow_status
      (snd (execute okEnv Dag resumedSteps False (Some ''demo'') True afterStuckRun)) = ''done''"
    using v a resumed_checkpoint
    by (simp add: execute_def finish_def status_text_def split_beta)
  have c: "length (w_stepCalls
      (fst (runAdmitted okEnv Dag resumedSteps False (Some ''demo'') True afterStuckRun))) =
     length (w_stepCalls afterStuckRun) + 1"
    using arg_cong [OF resumed_calls, of length] by simp
  show ?thesis using v n s c by (simp add: resumed_checkpoint)
qed

subsection \<open>Workflow: adopting a checkpoint\<close>

lemma afterCommaRun_file:
  "w_files afterCommaRun ''/ws/checkpoints/workflow-demo.json'' =
     Some \<lparr> cp_workflowId = ''demo'', cp_pattern = Sequential, cp_steps = [''a,b''],
            cp_completed = fmempty, cp_failed = fmupd ''a,b'' ''boom'' fmempty,
            cp_status = WfFailed, cp_startedAt = 1000, cp_updatedAt = 1000 \<rparr>"
  by (simp add: afterCommaRun_def failAllEnv_def okEnv_def commaStep_def mkStep_def emptyWorld_def
      execute_def validate_def admission_def finish_def checkpointPathOf_def workflowIdOf_def
      safe_def safeChar_def
      runAdmitted_def runPattern_def executeSequential_def restoreContext_def
      completedOf_def failedOf_def short_getProperty truthy_def short_fmSetProperty
      initCheckpoint_def saveCheckpoint_def executeStep_def Let_def)

text \<open>
  Claim C4.  The saved checkpoint of the one-step workflow \<open>a,b\<close> is adopted, with its
  \<open>failed\<close> map, by a resumed workflow whose steps are \<open>a\<close> and \<open>b\<close>: the two name
  sequences differ but their comma-joined texts are equal.
\<close>

theorem resume_adopts_other_steps:
  "map s_name abSteps = [''a'', ''b''] \<and>
   initCheckpoint okEnv True ''demo'' Sequential ''/ws/checkpoints/workflow-demo.json'' abSteps
       afterCommaRun =
     \<lparr> cp_workflowId = ''demo'', cp_pattern = Sequential, cp_steps = [''a,b''],
       cp_completed = fmempty, cp_failed = fmupd ''a,b'' ''boom'' fmempty,
       cp_status = InProgress, cp_startedAt = 1000, cp_updatedAt = 1000 \<rparr>"
  by (simp add: initCheckpoint_def loadCheckpoint_def afterCommaRun_file abSteps_def mkStep_def)

end
